theory Spec2Isabelle
  imports Complex_Main
begin

section \<open>Common data: mappings, stream items, failures\<close>

text \<open>
  A solution mapping is a Python \<^verbatim>\<open>dict\<close> from variable names to lexical values; both are
  strings. Dictionary equality ignores insertion order, so a dictionary is a finite map.
  \<^verbatim>\<open>d.copy()\<close> is the map itself (a value), \<^verbatim>\<open>a.update(b)\<close> is \<open>a ++ b\<close>.
\<close>

type_synonym dict = "string \<rightharpoonup> string"

text \<open>An item travelling on a queue: a mapping, or the sentinel string \<^verbatim>\<open>"EOF"\<close>.\<close>

datatype msg = Tuple dict | EOF

text \<open>
  Every way in which a call of the modelled code fails to return: the Python exceptions
  it can raise, and \<open>BlocksForever\<close> for a blocking \<^verbatim>\<open>get(True)\<close> on a queue on which
  nothing more arrives.
\<close>

datatype failure =
    KeyError string
  | UnboundLocalError
  | TypeError
  | IndexError
  | ZeroDivisionError
  | AttributeError
  | BlocksForever

text \<open>
  Failures are values: a call returns \<open>Inl\<close> of what went wrong or \<open>Inr\<close> of its result,
  and \<open>bind\<close> sequences two steps, the second of which is skipped when the first fails.
\<close>

definition bind :: "'e + 'a \<Rightarrow> ('a \<Rightarrow> 'e + 'b) \<Rightarrow> 'e + 'b" where
  "bind r f = (case r of Inl e \<Rightarrow> Inl e | Inr a \<Rightarrow> f a)"

section \<open>SPARQL terms (pysparql/model.py, class Argument)\<close>

record Argument =
  name :: string
  constant' :: bool
  desc :: "string option"
  datatype' :: "string option"
  lang :: "string option"
  isUri :: bool
  dtype :: "string option"

text \<open>\<^verbatim>\<open>Argument(name, constant)\<close> with the constructor's defaults; \<open>desc = None\<close> is
  Python's \<^verbatim>\<open>False\<close>.\<close>

definition mkArgument :: "string \<Rightarrow> bool \<Rightarrow> Argument" where
  "mkArgument n c =
     \<lparr>name = n, constant' = c, desc = None, datatype' = None, lang = None,
      isUri = False, dtype = None\<rparr>"

section \<open>The projection operator (operators/qforms/Xproject.py)\<close>

text \<open>
  The body of the \<^verbatim>\<open>for var in self.vars\<close> loop: the key is \<^verbatim>\<open>var.name[1:]\<close>, the value
  \<^verbatim>\<open>tuple.get(var, '')\<close>, entered with \<^verbatim>\<open>res.update\<close>.
\<close>

definition project_step :: "dict \<Rightarrow> dict \<Rightarrow> Argument \<Rightarrow> dict" where
  "project_step t res var =
     res(tl (name var) \<mapsto> (case t (tl (name var)) of None \<Rightarrow> [] | Some aux \<Rightarrow> aux))"

definition project :: "Argument list \<Rightarrow> dict \<Rightarrow> dict" where
  "project vars t = foldl (project_step t) Map.empty vars"

text \<open>
  \<^verbatim>\<open>Xproject.execute\<close>. The arguments are the operator's \<^verbatim>\<open>vars\<close> and \<^verbatim>\<open>limit\<close>, the counter
  \<^verbatim>\<open>i\<close>, the items still to arrive on \<^verbatim>\<open>left\<close>, and what has been put on \<^verbatim>\<open>out\<close> so far.
  The result is the final content of \<^verbatim>\<open>out\<close> together with the items of \<^verbatim>\<open>left\<close> that were
  never read. Each equation is one \<^verbatim>\<open>self.left.get(True)\<close> followed by the loop test.
\<close>

fun Xproject_loop ::
  "Argument list \<Rightarrow> int \<Rightarrow> int \<Rightarrow> msg list \<Rightarrow> msg list \<Rightarrow> failure + (msg list \<times> msg list)"
where
  "Xproject_loop vars limit i [] out = Inl BlocksForever"
| "Xproject_loop vars limit i (EOF # rest) out = Inr (out @ [EOF], rest)"
| "Xproject_loop vars limit i (Tuple t # rest) out =
     (if length vars = 0 then Xproject_loop vars limit i rest (out @ [Tuple t])
      else if 0 < limit \<and> limit \<le> i + 1
           then Inr (out @ [Tuple (project vars t)] @ [EOF], rest)
           else Xproject_loop vars limit (i + 1) rest (out @ [Tuple (project vars t)]))"

definition Xproject_execute ::
  "Argument list \<Rightarrow> int \<Rightarrow> msg list \<Rightarrow> failure + (msg list \<times> msg list)"
where
  "Xproject_execute vars limit left = Xproject_loop vars limit 0 left []"

text \<open>The number of mappings a run with a non-empty projection list reads and emits.\<close>

definition emitted_count :: "int \<Rightarrow> nat \<Rightarrow> nat" where
  "emitted_count limit n = (if 0 < limit \<and> limit \<le> int n then nat limit else n)"

section \<open>The algebra tree (pysparql/model.py)\<close>

text \<open>
  The classes of the model are duck-typed: a method is looked up on whatever object sits
  in a field, and a missing method raises \<^verbatim>\<open>AttributeError\<close>. The tree is therefore one
  datatype with a constructor per class, and every method is one function over all
  constructors that returns a failure where the class has no such method.

  The field \<^verbatim>\<open>triples\<close> of a block or service holds either a Python list of nodes or a
  single node (the methods test \<^verbatim>\<open>isinstance(self.triples, list)\<close>).
\<close>

datatype 'a children = Many "'a list" | Single 'a

text \<open>
  The fields of \<^verbatim>\<open>Service\<close> and \<^verbatim>\<open>Query\<close> that are not subtrees. The remaining fields of
  \<^verbatim>\<open>Service\<close> (\<^verbatim>\<open>datasource\<close>, \<^verbatim>\<open>rdfmts\<close>, \<^verbatim>\<open>stars\<close>, \<^verbatim>\<open>star_filters\<close>,
  \<^verbatim>\<open>translated_query\<close>) are opaque objects that none of the methods below reads.
\<close>

record service_fields =
  endpoint :: string
  service_limit :: int
  filter_nested :: "string list"

record query_fields =
  prefs :: "string list"
  projection_args :: "Argument list"
  is_distinct :: bool
  order_by :: "Argument list"
  query_limit :: int
  query_offset :: int
  query_type :: int
  query_filter_nested :: string

text \<open>
  \<open>TripleN subject predicate theobject isGeneral\<close>, \<open>JoinBlockN triples filters filters_str\<close>,
  \<open>UnionBlockN triples filters\<close>, \<open>OptionalN bgg\<close>, \<open>ServiceN fields triples filters\<close>,
  \<open>QueryN fields body\<close>, \<open>FilterN expr\<close>, \<open>ExpressionN op left right\<close> (\<open>right = None\<close> is
  Python's \<^verbatim>\<open>None\<close>).
\<close>

datatype node =
    ArgumentN Argument
  | ExpressionN string node "node option"
  | FilterN node
  | TripleN Argument Argument Argument bool
  | JoinBlockN "node children" "node list" string
  | UnionBlockN "node children" "node list"
  | OptionalN node
  | ServiceN service_fields "node children" "node list"
  | QueryN query_fields node


subsection \<open>Accumulating over children\<close>

text \<open>
  \<open>sum_results\<close> is the accumulation loop \<^verbatim>\<open>p = 0; for t in ts: p = p + t.m()\<close> and
  \<open>map_results\<close> the comprehension \<^verbatim>\<open>[t.m() for t in ts]\<close>: both stop at the first
  element whose call raises.
\<close>

fun sum_results :: "(failure + int) list \<Rightarrow> failure + int" where
  "sum_results [] = Inr 0"
| "sum_results (r # rs) = bind r (\<lambda>a. bind (sum_results rs) (\<lambda>b. Inr (a + b)))"

fun map_results :: "(failure + 'a) list \<Rightarrow> failure + 'a list" where
  "map_results [] = Inr []"
| "map_results (r # rs) = bind r (\<lambda>a. bind (map_results rs) (\<lambda>as. Inr (a # as)))"

subsection \<open>Slot and constant counts\<close>

text \<open>The set \<^verbatim>\<open>SPARQL.unaryFunctor\<close>.\<close>

definition unaryFunctor :: "string list" where
  "unaryFunctor =
    [''!'', ''BOUND'', ''bound'', ''ISIRI'', ''isiri'', ''ISURI'', ''isuri'', ''ISBLANK'',
     ''isblank'', ''ISLITERAL'', ''isliteral'', ''STR'', ''str'', ''UCASE'', ''ucase'',
     ''LANG'', ''lang'', ''DATATYPE'', ''datatype'', ''xsd:double'', ''xsd:integer'',
     ''xsd:decimal'', ''xsd:float'', ''xsd:string'', ''xsd:boolean'', ''xsd:dateTime'',
     ''xsd:nonPositiveInteger'', ''xsd:negativeInteger'', ''xsd:long'', ''xsd:int'',
     ''xsd:short'', ''xsd:byte'', ''xsd:nonNegativeInteger'', ''xsd:unsignedInt'',
     ''xsd:unsignedShort'', ''xsd:unsignedByte'', ''xsd:positiveInteger'',
     ''<http://www.w3.org/2001/XMLSchema#integer>'',
     ''<http://www.w3.org/2001/XMLSchema#decimal>'',
     ''<http://www.w3.org/2001/XMLSchema#double>'',
     ''<http://www.w3.org/2001/XMLSchema#float>'',
     ''<http://www.w3.org/2001/XMLSchema#string>'',
     ''<http://www.w3.org/2001/XMLSchema#boolean>'',
     ''<http://www.w3.org/2001/XMLSchema#dateTime>'',
     ''<http://www.w3.org/2001/XMLSchema#nonPositiveInteger>'',
     ''<http://www.w3.org/2001/XMLSchema#negativeInteger>'',
     ''<http://www.w3.org/2001/XMLSchema#long>'',
     ''<http://www.w3.org/2001/XMLSchema#int>'',
     ''<http://www.w3.org/2001/XMLSchema#short>'',
     ''<http://www.w3.org/2001/XMLSchema#byte>'',
     ''<http://www.w3.org/2001/XMLSchema#nonNegativeInteger>'',
     ''<http://www.w3.org/2001/XMLSchema#unsignedInt>'',
     ''<http://www.w3.org/2001/XMLSchema#unsignedShort>'',
     ''<http://www.w3.org/2001/XMLSchema#unsignedByte>'',
     ''<http://www.w3.org/2001/XMLSchema#positiveInteger>'']"

text \<open>
  \<^verbatim>\<open>x.desc is False\<close> for the object \<open>x\<close> in an operand field: only \<^verbatim>\<open>Argument\<close> has the
  attribute \<^verbatim>\<open>desc\<close>.
\<close>

fun desc_is_False :: "node option \<Rightarrow> failure + bool" where
  "desc_is_False (Some (ArgumentN a)) = Inr (desc a = None)"
| "desc_is_False _ = Inl AttributeError"

text \<open>
  \<^verbatim>\<open>places()\<close>. \<^verbatim>\<open>UnionBlock.places\<close> iterates over \<^verbatim>\<open>self.triples\<close> without testing
  that it is a list; a single node is not iterable.
\<close>

fun places :: "node \<Rightarrow> failure + int" where
  "places (ArgumentN a) = Inr 1"
| "places (ExpressionN op l r) =
     (if op \<in> set unaryFunctor then places l
      else bind (if op = ''REGEX'' then desc_is_False r else Inr False)
        (\<lambda>short. if short then places l
           else bind (places l)
             (\<lambda>a. case r of None \<Rightarrow> Inl AttributeError
                   | Some rn \<Rightarrow> bind (places rn) (\<lambda>b. Inr (a + b)))))"
| "places (FilterN e) = places e"
| "places (TripleN s p ob g) = Inr 3"
| "places (JoinBlockN (Many ts) fs fstr) = sum_results (map places ts)"
| "places (JoinBlockN (Single t) fs fstr) = places t"
| "places (UnionBlockN (Many ts) fs) = sum_results (map places ts)"
| "places (UnionBlockN (Single t) fs) = Inl TypeError"
| "places (OptionalN b) = places b"
| "places (ServiceN sf (Many ts) fs) = sum_results (map places ts)"
| "places (ServiceN sf (Single t) fs) = places t"
| "places (QueryN qf b) = places b"

text \<open>
  \<^verbatim>\<open>constantNumber()\<close>. In \<^verbatim>\<open>Expression\<close> the source tests \<^verbatim>\<open>self.left.desc\<close> here, where
  \<^verbatim>\<open>places\<close> tests \<^verbatim>\<open>self.right.desc\<close>.
\<close>

fun constantNumber :: "node \<Rightarrow> failure + int" where
  "constantNumber (ArgumentN a) = Inr (if constant' a then 1 else 0)"
| "constantNumber (ExpressionN op l r) =
     (if op \<in> set unaryFunctor then constantNumber l
      else bind (if op = ''REGEX'' then desc_is_False (Some l) else Inr False)
        (\<lambda>short. if short then constantNumber l
           else bind (constantNumber l)
             (\<lambda>a. case r of None \<Rightarrow> Inl AttributeError
                   | Some rn \<Rightarrow> bind (constantNumber rn) (\<lambda>b. Inr (a + b)))))"
| "constantNumber (FilterN e) = Inr 1"
| "constantNumber (TripleN s p ob g) =
     Inr ((if constant' s then 1 else 0) + (if constant' p then 1 else 0)
          + (if constant' ob then 1 else 0))"
| "constantNumber (JoinBlockN (Many ts) fs fstr) = sum_results (map constantNumber ts)"
| "constantNumber (JoinBlockN (Single t) fs fstr) = constantNumber t"
| "constantNumber (UnionBlockN (Many ts) fs) = sum_results (map constantNumber ts)"
| "constantNumber (UnionBlockN (Single t) fs) = Inl TypeError"
| "constantNumber (OptionalN b) = constantNumber b"
| "constantNumber (ServiceN sf (Many ts) fs) = sum_results (map constantNumber ts)"
| "constantNumber (ServiceN sf (Single t) fs) = constantNumber t"
| "constantNumber (QueryN qf b) = constantNumber b"

text \<open>
  \<^verbatim>\<open>const_subjects()\<close>, \<^verbatim>\<open>const_predicates()\<close> and \<^verbatim>\<open>const_objects()\<close> are three copies
  of one method body that differ in the position they count; \<open>const_count\<close> is that body
  with the position as a parameter. \<^verbatim>\<open>Optional.const_objects\<close> calls the misspelt
  \<^verbatim>\<open>self.bgg.const_obbjects()\<close>, which no class defines. \<^verbatim>\<open>Argument\<close>, \<^verbatim>\<open>Expression\<close>,
  \<^verbatim>\<open>Filter\<close> and \<^verbatim>\<open>Query\<close> do not define the three methods.
\<close>

datatype place = Subject | Predicate | Object

fun const_count :: "place \<Rightarrow> node \<Rightarrow> failure + int" where
  "const_count pl (TripleN s p ob g) =
     Inr (if constant' (case pl of Subject \<Rightarrow> s | Predicate \<Rightarrow> p | Object \<Rightarrow> ob)
          then 1 else 0)"
| "const_count pl (JoinBlockN (Many ts) fs fstr) = sum_results (map (const_count pl) ts)"
| "const_count pl (JoinBlockN (Single t) fs fstr) = const_count pl t"
| "const_count pl (UnionBlockN (Many ts) fs) = sum_results (map (const_count pl) ts)"
| "const_count pl (UnionBlockN (Single t) fs) = Inl TypeError"
| "const_count pl (OptionalN b) =
     (if pl = Object then Inl AttributeError else const_count pl b)"
| "const_count pl (ServiceN sf (Many ts) fs) = sum_results (map (const_count pl) ts)"
| "const_count pl (ServiceN sf (Single t) fs) = const_count pl t"
| "const_count pl (ArgumentN a) = Inl AttributeError"
| "const_count pl (ExpressionN op l r) = Inl AttributeError"
| "const_count pl (FilterN e) = Inl AttributeError"
| "const_count pl (QueryN qf b) = Inl AttributeError"

definition const_subjects :: "node \<Rightarrow> failure + int" where
  "const_subjects = const_count Subject"

definition const_predicates :: "node \<Rightarrow> failure + int" where
  "const_predicates = const_count Predicate"

definition const_objects :: "node \<Rightarrow> failure + int" where
  "const_objects = const_count Object"

text \<open>
  Python's \<^verbatim>\<open>a / b\<close> on integers. The quotient is kept exact (a rational); the source's
  result is the nearest double, which orders and compares equal in the same way for the
  slot counts of any tree that fits in memory.
\<close>

definition true_div :: "int \<Rightarrow> int \<Rightarrow> failure + rat" where
  "true_div a b = (if b = 0 then Inl ZeroDivisionError else Inr (of_int a / of_int b))"

text \<open>
  \<^verbatim>\<open>constantPercentage()\<close>: \<^verbatim>\<open>Filter\<close> returns the constant 0.5, \<^verbatim>\<open>Service\<close> tests
  \<^verbatim>\<open>self.places() == 0\<close> first, every other class divides at once.
\<close>

definition constantPercentage :: "node \<Rightarrow> failure + rat" where
  "constantPercentage n =
     (case n of
        FilterN e \<Rightarrow> Inr (1 / 2)
      | ServiceN sf ts fs \<Rightarrow>
          bind (places n) (\<lambda>p. if p = 0 then Inr 0
             else bind (constantNumber n) (\<lambda>c. bind (places n) (\<lambda>q. true_div c q)))
      | _ \<Rightarrow> bind (constantNumber n) (\<lambda>c. bind (places n) (\<lambda>q. true_div c q)))"

subsection \<open>Ordering of services\<close>

text \<open>
  \<^verbatim>\<open>Service.__lt__(self, other)\<close>. The chain of \<^verbatim>\<open>if\<close>/\<^verbatim>\<open>elif\<close> is kept in the source's
  order; a method is called when the branch that mentions it is first reached. The
  branch \<^verbatim>\<open>elif other.const_subjects() == self.const_subjects()\<close> has four inner tests and
  falls through to the percentage comparison when none of them returns.
\<close>

definition Service_lt :: "node \<Rightarrow> node \<Rightarrow> failure + bool" where
  "Service_lt self other =
     bind (const_subjects other) (\<lambda>ocs. bind (const_predicates other) (\<lambda>ocp.
     bind (const_subjects self) (\<lambda>scs. bind (const_predicates self) (\<lambda>scp.
       if ocs + ocp > scs + scp then Inr False
       else if ocs + ocp < scs + scp then Inr True
       else if ocs > scs then Inr False
       else if ocs < scs then Inr True
       else bind (const_objects other) (\<lambda>oco. bind (const_objects self) (\<lambda>sco.
         if oco + ocp > sco + scp then Inr False
         else if oco + ocp < sco + scp then Inr True
         else if oco > sco then Inr False
         else if oco < sco then Inr True
         else if ocs = scs \<and> ocp > scp then Inr False
         else if ocs = scs \<and> ocp < scp then Inr True
         else if ocs = scs \<and> oco > sco then Inr False
         else if ocs = scs \<and> oco < sco then Inr True
         else bind (constantPercentage other) (\<lambda>opc. bind (constantPercentage self) (\<lambda>spc.
           if opc = spc
           then bind (constantNumber other) (\<lambda>ocn. bind (constantNumber self) (\<lambda>scn.
                  if ocn > scn then Inr False else Inr True))
           else Inr (spc > opc)))))))))"

subsection \<open>Instantiation\<close>

text \<open>\<^verbatim>\<open>s.lstrip(cs)\<close> removes the leading characters of \<open>s\<close> that occur in \<open>cs\<close>.\<close>

fun lstrip :: "char list \<Rightarrow> string \<Rightarrow> string" where
  "lstrip cs s = dropWhile (\<lambda>c. c \<in> set cs) s"

text \<open>
  One position of \<^verbatim>\<open>Triple.instantiate\<close>: a variable whose stripped name is a key of \<open>d\<close>
  becomes \<^verbatim>\<open>Argument(d[n], True)\<close>, anything else is kept.
\<close>

definition instantiate_arg :: "dict \<Rightarrow> Argument \<Rightarrow> Argument" where
  "instantiate_arg d a =
     (let n = lstrip ''?$'' (name a)
      in if \<not> constant' a \<and> d n \<noteq> None then mkArgument (the (d n)) True else a)"

text \<open>
  \<^verbatim>\<open>instantiate(d)\<close>. \<^verbatim>\<open>Service\<close> and \<^verbatim>\<open>Query\<close> assign the new subtree to their own field
  and return \<^verbatim>\<open>self\<close>; the returned node is the updated one. \<^verbatim>\<open>Triple(s, p, o)\<close> sets
  \<^verbatim>\<open>isGeneral\<close> to \<^verbatim>\<open>False\<close>; \<^verbatim>\<open>JoinBlock(ts, filters)\<close> and \<^verbatim>\<open>JoinBlock(ts)\<close> take the
  constructor's defaults (no filters, empty \<^verbatim>\<open>filters_str\<close>) for what they do not pass.
  \<^verbatim>\<open>Argument\<close> has no method \<^verbatim>\<open>instantiate\<close>.
\<close>

fun instantiate :: "dict \<Rightarrow> node \<Rightarrow> failure + node" where
  "instantiate d (ArgumentN a) = Inl AttributeError"
| "instantiate d (ExpressionN op l r) =
     bind (instantiate d l)
       (\<lambda>l'. case r of None \<Rightarrow> Inl AttributeError
              | Some rn \<Rightarrow> bind (instantiate d rn) (\<lambda>r'. Inr (ExpressionN op l' (Some r'))))"
| "instantiate d (FilterN e) = bind (instantiate d e) (\<lambda>e'. Inr (FilterN e'))"
| "instantiate d (TripleN s p ob g) =
     Inr (TripleN (instantiate_arg d s) (instantiate_arg d p) (instantiate_arg d ob) False)"
| "instantiate d (JoinBlockN (Many ts) fs fstr) =
     bind (map_results (map (instantiate d) ts)) (\<lambda>ts'. Inr (JoinBlockN (Many ts') fs []))"
| "instantiate d (JoinBlockN (Single t) fs fstr) = instantiate d t"
| "instantiate d (UnionBlockN (Many ts) fs) =
     bind (map_results (map (instantiate d) ts)) (\<lambda>ts'. Inr (JoinBlockN (Many ts') [] []))"
| "instantiate d (UnionBlockN (Single t) fs) = instantiate d t"
| "instantiate d (OptionalN b) = bind (instantiate d b) (\<lambda>b'. Inr (OptionalN b'))"
| "instantiate d (ServiceN sf (Many ts) fs) =
     bind (map_results (map (instantiate d) ts)) (\<lambda>ts'. Inr (ServiceN sf (Many ts') fs))"
| "instantiate d (ServiceN sf (Single t) fs) =
     bind (instantiate d t) (\<lambda>t'. Inr (ServiceN sf (Single t') fs))"
| "instantiate d (QueryN qf b) = bind (instantiate d b) (\<lambda>b'. Inr (QueryN qf b'))"

subsection \<open>Example trees\<close>

text \<open>\<^verbatim>\<open>Triple(Argument(s, sc), Argument(p, pc), Argument(o, oc))\<close>.\<close>

definition tp :: "string \<Rightarrow> bool \<Rightarrow> string \<Rightarrow> bool \<Rightarrow> string \<Rightarrow> bool \<Rightarrow> node" where
  "tp s sc p pc ob oc = TripleN (mkArgument s sc) (mkArgument p pc) (mkArgument ob oc) False"

text \<open>A service over a list of triple patterns, other fields at their defaults.\<close>

definition mkService :: "node list \<Rightarrow> node" where
  "mkService ts = ServiceN \<lparr>endpoint = ''http://ex/sparql'', service_limit = -1, filter_nested = []\<rparr> (Many ts) []"

text \<open>
  \<open>S1_example\<close> has one constant subject, one constant predicate and no constant object;
  \<open>S2_example\<close> has no constant subject, two constant predicates and one constant object.
\<close>

definition S1_example :: node where
  "S1_example = mkService [tp ''<http://ex/s>'' True ''<http://ex/p>'' True ''?o'' False]"

definition S2_example :: node where
  "S2_example = mkService [tp ''?s'' False ''<http://ex/p>'' True ''<http://ex/o>'' True,
                           tp ''?s'' False ''<http://ex/q>'' True ''?o'' False]"

text \<open>A union of one join block, carrying one filter.\<close>

definition union_example :: node where
  "union_example =
     UnionBlockN (Many [JoinBlockN (Many [tp ''?s'' False ''<http://ex/p>'' True ''?o'' False]) [] []])
       [FilterN (ExpressionN ''BOUND'' (ArgumentN (mkArgument ''?o'' False)) None)]"

section \<open>RML term maps to SQL (sql/rml2sql/term_map.py)\<close>

text \<open>
  The class \<^verbatim>\<open>TermMap\<close> and its two enumerations belong to \<^verbatim>\<open>awudima.pyrml\<close>, which is not
  among the sources. The record holds the attributes that \<^verbatim>\<open>term_map.py\<close> reads from a
  term map (\<^verbatim>\<open>value\<close>, \<^verbatim>\<open>resource_type\<close>, \<^verbatim>\<open>term_type\<close>, \<^verbatim>\<open>columns\<close>) and, as a further
  field, the list that its method \<^verbatim>\<open>split_template()\<close> returns.
\<close>

datatype TripleMapType = TEMPLATE | REFERENCE | CONSTANT

datatype TermType = IRI | Literal | BNode

record TermMap =
  value' :: string
  resource_type :: TripleMapType
  term_type :: TermType
  columns :: "string list"
  split_template :: "string list list"

text \<open>
  Modelled from the spec: the SQL expression classes of \<^verbatim>\<open>awudima.sql.lang.model\<close> are not
  among the sources. The spec speaks of a SQL column or function expression, of filter
  conditions in conjunction and of a select-expression; each class is a constructor
  that holds the arguments \<^verbatim>\<open>term_map.py\<close> passes to it, an argument that a call leaves
  out being \<open>None\<close>. \<open>SQLColumn name table_alias schema\<close>, \<open>SQLFunction name args columns\<close>,
  \<open>SQLCondition left operator right\<close>, \<open>SQLSelectExpression expression alias\<close>.
\<close>

datatype sql_term =
    SQLColumn string "string option" "string option"
  | SQLFunction string "string list" "sql_term list"

datatype sql_operand = Term sql_term | Text string | Boolean bool

datatype SQLCondition = SQLCondition sql_operand "string option" "string option"

datatype SQLAndCondition = SQLAndCondition "SQLCondition list"

datatype SQLSelectExpression = SQLSelectExpression sql_term string

text \<open>The quote characters that the translation writes into SQL text.\<close>

definition squote :: char where "squote = CHR 0x27"

definition dquote :: char where "dquote = CHR 0x22"

definition bquote :: char where "bquote = CHR 0x60"

definition single_quoted :: "string \<Rightarrow> string" where
  "single_quoted s = [squote] @ s @ [squote]"

definition back_quoted :: "string \<Rightarrow> string" where
  "back_quoted s = [bquote] @ s @ [bquote]"

text \<open>\<^verbatim>\<open>TermMap2SQL.get_expr\<close>: one or two SQL fragments per template segment.\<close>

fun get_expr :: "string list list \<Rightarrow> string list" where
  "get_expr [] = []"
| "get_expr (template # rest) =
     (if length template > 1
      then (if length (template ! 0) > 0
            then [single_quoted (template ! 0), back_quoted (template ! 1)]
            else [back_quoted (template ! 1)])
      else if length template = 1 then [single_quoted (template ! 0)]
      else [])
     @ get_expr rest"

text \<open>
  The common tail of the \<^verbatim>\<open>TEMPLATE\<close> and blank-node \<^verbatim>\<open>REFERENCE\<close> branches of
  \<^verbatim>\<open>get_sql_term\<close>: a \<^verbatim>\<open>CONCAT\<close> of the fragments, or the single fragment as a column;
  \<^verbatim>\<open>expr[0]\<close> on an empty list raises.
\<close>

definition term_of_expr ::
  "string list \<Rightarrow> string list \<Rightarrow> string option \<Rightarrow> string option \<Rightarrow> failure + sql_term"
where
  "term_of_expr expr cols table_alias schema =
     (if length expr > 1
      then Inr (SQLFunction ''CONCAT'' expr
                  (map (\<lambda>column. SQLColumn (back_quoted column) table_alias schema) cols))
      else case expr of [] \<Rightarrow> Inl IndexError
           | e # _ \<Rightarrow> Inr (SQLColumn e table_alias schema))"

text \<open>
  \<^verbatim>\<open>TermMap2SQL.get_sql_term\<close>: the SQL term (\<open>None\<close> for a constant term map) and the
  result template, a dictionary with the keys \<^verbatim>\<open>type\<close> and \<^verbatim>\<open>value\<close>.
\<close>

definition get_sql_term ::
  "TermMap \<Rightarrow> string option \<Rightarrow> string option \<Rightarrow> failure + (sql_term option \<times> dict)"
where
  "get_sql_term term_map table_alias schema =
     (case resource_type term_map of
        TEMPLATE \<Rightarrow>
          (case split_template term_map of
             [] \<Rightarrow> Inr (None, [''type'' \<mapsto> ''uri'', ''value'' \<mapsto> ''''])
           | first # others \<Rightarrow>
               bind (if term_type term_map = BNode
                     then (case first of [] \<Rightarrow> Inl IndexError
                           | c # cs \<Rightarrow> Inr ((''_:'' @ c) # cs) )
                     else Inr first)
                 (\<lambda>first'. bind (term_of_expr (get_expr (first' # others)) (columns term_map)
                                   table_alias schema)
                    (\<lambda>t. Inr (Some t,
                       [''type'' \<mapsto> (if term_type term_map = BNode then ''bnode'' else ''uri''),
                        ''value'' \<mapsto> '''']))))
      | REFERENCE \<Rightarrow>
          (case term_type term_map of
             BNode \<Rightarrow>
               bind (term_of_expr (get_expr [[''_:'', value' term_map]]) (columns term_map)
                       table_alias schema)
                 (\<lambda>t. Inr (Some t, [''type'' \<mapsto> ''bnode'', ''value'' \<mapsto> '''']))
           | IRI \<Rightarrow>
               Inr (Some (SQLColumn (value' term_map) table_alias schema),
                    [''type'' \<mapsto> ''uri'', ''value'' \<mapsto> ''''])
           | Literal \<Rightarrow>
               Inr (Some (SQLColumn (value' term_map) table_alias schema),
                    [''type'' \<mapsto> ''literal'', ''value'' \<mapsto> '''']))
      | CONSTANT \<Rightarrow>
          Inr (None,
               [''value'' \<mapsto> value' term_map,
                ''type'' \<mapsto> (case term_type term_map of
                                BNode \<Rightarrow> ''bnode'' | Literal \<Rightarrow> ''literal'' | IRI \<Rightarrow> ''uri'')]))"

text \<open>
  The value that \<^verbatim>\<open>get_filter_condition\<close> compares with: the name of the constant
  argument, re-quoted with single quotes unless the term type is a blank node.
  \<^verbatim>\<open>rdf_term_value[0]\<close> raises on an empty name; \<^verbatim>\<open>s[1:-1]\<close> drops the first and the last
  character.
\<close>

definition requoted :: "TermType \<Rightarrow> string \<Rightarrow> failure + string" where
  "requoted tt rdf_term_value =
     (if tt \<noteq> BNode
      then (case rdf_term_value of
              [] \<Rightarrow> Inl IndexError
            | c # _ \<Rightarrow>
                if c \<in> set [dquote, CHR ''<'', squote]
                then Inr (single_quoted (butlast (tl rdf_term_value)))
                else Inr (single_quoted rdf_term_value))
      else Inr rdf_term_value)"

text \<open>
  \<^verbatim>\<open>TermMap2SQL.get_filter_condition\<close>, with the attributes of \<^verbatim>\<open>self\<close> it reads as
  arguments: the term map, the RDF term, the comparison operator, the SQL term and the
  result template. \<open>None\<close> is Python's \<^verbatim>\<open>None\<close> (no condition).
\<close>

definition get_filter_condition ::
  "TermMap \<Rightarrow> Argument \<Rightarrow> string \<Rightarrow> sql_term option \<Rightarrow> dict \<Rightarrow> failure + SQLAndCondition option"
where
  "get_filter_condition term_map rdf_term comparision_opr trm sparql_result_template =
     (if \<not> constant' rdf_term then Inr None
      else bind (requoted (term_type term_map) (name rdf_term))
        (\<lambda>rdf_term_value.
           case trm of
             Some t \<Rightarrow>
               Inr (Some (SQLAndCondition
                      [SQLCondition (Term t) (Some comparision_opr) (Some rdf_term_value)]))
           | None \<Rightarrow>
               (case sparql_result_template ''value'' of
                  None \<Rightarrow> Inl (KeyError ''value'')
                | Some v \<Rightarrow>
                    if comparision_opr = ''=''
                    then (if v = rdf_term_value then Inr None
                          else Inr (Some (SQLAndCondition
                                 [SQLCondition (Boolean False) None None])))
                    else Inr (Some (SQLAndCondition
                           [SQLCondition (Text (single_quoted v)) (Some comparision_opr)
                              (Some rdf_term_value)])))))"

text \<open>\<^verbatim>\<open>TermMap2SQL.get_bound_columns\<close> and \<^verbatim>\<open>TermMap2SQL.get_projections\<close>.\<close>

definition get_bound_columns ::
  "TermMap \<Rightarrow> Argument \<Rightarrow> string option \<Rightarrow> string option \<Rightarrow> SQLAndCondition option"
where
  "get_bound_columns term_map rdf_term table_alias schema =
     (if constant' rdf_term then None
      else Some (SQLAndCondition
             (map (\<lambda>column. SQLCondition (Term (SQLColumn column table_alias schema))
                                (Some '' IS NOT '') (Some ''NULL''))
                  (columns term_map))))"

definition get_projections :: "Argument \<Rightarrow> sql_term option \<Rightarrow> SQLSelectExpression option" where
  "get_projections rdf_term trm =
     (if constant' rdf_term then None
      else case trm of
             Some t \<Rightarrow> Some (SQLSelectExpression t (tl (name rdf_term)))
           | None \<Rightarrow> None)"

text \<open>
  The attributes of a \<^verbatim>\<open>TermMap2SQL\<close> object that the constructor computes, and the
  constructor itself (\<^verbatim>\<open>__init__\<close> followed by \<^verbatim>\<open>_process_term_map\<close>).
\<close>

record TermMap2SQL =
  term' :: "sql_term option"
  sparql_result_template :: dict
  filter_conditions :: "SQLAndCondition option"
  projection :: "SQLSelectExpression option"

definition TermMap2SQL_init ::
  "TermMap \<Rightarrow> Argument \<Rightarrow> string \<Rightarrow> string option \<Rightarrow> string option \<Rightarrow> failure + TermMap2SQL"
where
  "TermMap2SQL_init term_map rdf_term comparision_opr table_alias schema =
     bind (get_sql_term term_map table_alias schema)
       (\<lambda>(trm, result_json_template).
          if constant' rdf_term
          then bind (get_filter_condition term_map rdf_term comparision_opr trm
                       result_json_template)
                 (\<lambda>fc. Inr \<lparr>term' = trm, sparql_result_template = Map.empty,
                            filter_conditions = fc, projection = None\<rparr>)
          else Inr \<lparr>term' = trm, sparql_result_template = result_json_template,
                    filter_conditions = get_bound_columns term_map rdf_term table_alias schema,
                    projection = get_projections rdf_term trm\<rparr>)"

text \<open>
  \<^verbatim>\<open>TermMap(value, resource_type, term_type)\<close> for a term map without columns and
  template segments, as a constant-valued term map is.
\<close>

definition mkTermMap :: "string \<Rightarrow> TripleMapType \<Rightarrow> TermType \<Rightarrow> TermMap" where
  "mkTermMap v rt tt =
     \<lparr>value' = v, resource_type = rt, term_type = tt, columns = [], split_template = []\<rparr>"

text \<open>The trivially false condition \<^verbatim>\<open>SQLAndCondition([SQLCondition(False)])\<close>.\<close>

definition trivially_false :: SQLAndCondition where
  "trivially_false = SQLAndCondition [SQLCondition (Boolean False) None None]"

section \<open>The nested-loop optional operator (operators/blocking/NestedLoopOptional.py)\<close>

subsection \<open>Store, records and tables\<close>

text \<open>
  The operator keeps references to dictionaries in its tables and in its result list, and
  it updates a dictionary after it has stored a reference to it. Dictionaries therefore
  live in a store: \<open>heap\<close> maps an address to the current content of the dictionary at
  that address, and \<open>next_addr\<close> is the first address not yet in use.
\<close>

type_synonym addr = nat

text \<open>
  Modelled from the spec: the classes \<^verbatim>\<open>Record\<close>, \<^verbatim>\<open>Partition\<close> and \<^verbatim>\<open>Table\<close> of
  \<^verbatim>\<open>operators/blocking/OperatorStructures\<close> are not among the sources. By the spec a
  record is \<open>(tuple, ats, dts)\<close> with \<open>ats\<close> the insertion timestamp; a table has a fixed
  number of partitions (128 by default), each an append-only list of records, and an
  insertion appends to the partition with the given index. By the spec an empty
  partition is probed like any other (the remote source is contacted), so the test
  \<^verbatim>\<open>if partition:\<close> of the probe succeeds for every partition object, whatever it
  holds.
\<close>

record Record =
  tuple :: addr
  ats :: int
  dts :: int

type_synonym table = "Record list list"

definition table_size :: nat where
  "table_size = 128"

definition new_table :: table where
  "new_table = replicate table_size []"

definition insertRecord :: "nat \<Rightarrow> Record \<Rightarrow> table \<Rightarrow> table" where
  "insertRecord i r t = t[i := t ! i @ [r]]"

text \<open>
  What the operator takes from outside: Python's \<^verbatim>\<open>hash\<close> on strings, the successive
  readings of \<^verbatim>\<open>time()\<close> (\<open>clock env k\<close> is the reading with \<open>k\<close> readings before it; only
  their order is ever used, so they are integers), and the remote source \<^verbatim>\<open>right\<close>:
  \<open>right_execute env vars instances\<close> is the sequence of items that
  \<^verbatim>\<open>right.execute(vars, instances, q)\<close> makes arrive on \<^verbatim>\<open>q\<close>, and \<open>right_atts\<close> is
  \<^verbatim>\<open>right.atts\<close>.
\<close>

record env =
  hash :: "string \<Rightarrow> int"
  clock :: "nat \<Rightarrow> int"
  right_execute :: "string list \<Rightarrow> string list \<Rightarrow> msg list"
  right_atts :: "string list"

text \<open>
  The state of the operator object and its surroundings: the store, the two tables, the
  list \<^verbatim>\<open>self.results\<close>, the number of readings of the clock so far, the instance lists
  of the calls made to the remote source so far, and the items put on the output queue.
\<close>

record nlo =
  heap :: "addr \<Rightarrow> dict"
  next_addr :: addr
  left_table :: table
  right_table :: table
  results :: "addr list"
  ticks :: nat
  contacted :: "string list list"
  qresults :: "msg list"

text \<open>The state after \<^verbatim>\<open>NestedLoopOptional.__init__\<close>.\<close>

definition NLO_init :: nlo where
  "NLO_init =
     \<lparr>heap = (\<lambda>_. Map.empty), next_addr = 0, left_table = new_table, right_table = new_table,
      results = [], ticks = 0, contacted = [], qresults = []\<rparr>"

text \<open>
  A call either returns, or it fails in some state: \<open>Inl (e, st)\<close> is the failure \<open>e\<close> with
  the operator left in state \<open>st\<close>.
\<close>

type_synonym 'a outcome = "(failure \<times> nlo) + 'a"

definition final_state :: "nlo outcome \<Rightarrow> nlo" where
  "final_state r = (case r of Inl (e, st) \<Rightarrow> st | Inr st \<Rightarrow> st)"

text \<open>A new dictionary with content \<open>d\<close> (\<^verbatim>\<open>{}\<close>, \<^verbatim>\<open>x.copy()\<close>, an item taken from a queue).\<close>

definition alloc :: "dict \<Rightarrow> nlo \<Rightarrow> addr \<times> nlo" where
  "alloc d st =
     (next_addr st, st\<lparr>heap := (heap st)(next_addr st := d), next_addr := Suc (next_addr st)\<rparr>)"

text \<open>\<^verbatim>\<open>x.update(d)\<close> for the dictionary \<open>x\<close> at address \<open>a\<close>.\<close>

definition update_at :: "addr \<Rightarrow> dict \<Rightarrow> nlo \<Rightarrow> nlo" where
  "update_at a d st = st\<lparr>heap := (heap st)(a := heap st a ++ d)\<rparr>"

text \<open>One reading of \<^verbatim>\<open>time()\<close>.\<close>

definition read_clock :: "env \<Rightarrow> nlo \<Rightarrow> int \<times> nlo" where
  "read_clock env st = (clock env (ticks st), st\<lparr>ticks := Suc (ticks st)\<rparr>)"

subsection \<open>Probing\<close>

text \<open>
  \<^verbatim>\<open>isDuplicated\<close>, and the inner loop of \<^verbatim>\<open>probe\<close> over the join variables. The local
  variable \<^verbatim>\<open>join\<close> is assigned only inside that loop; \<open>None\<close> is the variable not yet
  assigned. \<open>join_test rt t vs join\<close> is its value after the loop, for the probing
  dictionary \<open>rt\<close> and the partition record's dictionary \<open>t\<close>.
\<close>

definition isDuplicated :: "Record \<Rightarrow> Record \<Rightarrow> bool" where
  "isDuplicated record1 record2 = (\<not> ats record1 \<ge> ats record2)"

fun join_test :: "dict \<Rightarrow> dict \<Rightarrow> string list \<Rightarrow> bool option \<Rightarrow> failure + bool option" where
  "join_test rt t [] join = Inr join"
| "join_test rt t (v # vs) join =
     (case rt v of
        None \<Rightarrow> Inl (KeyError v)
      | Some a \<Rightarrow>
          (case t v of
             None \<Rightarrow> Inl (KeyError v)
           | Some b \<Rightarrow> if a \<noteq> b then Inr (Some False) else join_test rt t vs (Some True)))"

text \<open>
  The body of \<^verbatim>\<open>if join:\<close> in the scan: the probing dictionary is copied, the copy is
  updated with the record's dictionary and appended to the results.
\<close>

definition local_join :: "Record \<Rightarrow> Record \<Rightarrow> nlo \<Rightarrow> nlo" where
  "local_join record r st =
     (let (res, st1) = alloc (heap st (tuple record)) st;
          st2 = update_at res (heap st1 (tuple r)) st1
      in st2\<lparr>results := results st2 @ [res]\<rparr>)"

text \<open>
  The loop \<^verbatim>\<open>for r in partition.records\<close>. It carries the local variables \<^verbatim>\<open>join\<close> and
  \<^verbatim>\<open>anyjoin\<close>. The test \<^verbatim>\<open>if join\<close> on an unassigned variable raises
  \<^verbatim>\<open>UnboundLocalError\<close>.
\<close>

fun scan ::
  "string list \<Rightarrow> Record \<Rightarrow> Record list \<Rightarrow> bool option \<Rightarrow> bool \<Rightarrow> nlo \<Rightarrow> (bool \<times> nlo) outcome"
where
  "scan var record [] join anyjoin st = Inr (anyjoin, st)"
| "scan var record (r # rs) join anyjoin st =
     (if isDuplicated record r then Inr (anyjoin, st)
      else case join_test (heap st (tuple record)) (heap st (tuple r)) var join of
             Inl e \<Rightarrow> Inl (e, st)
           | Inr None \<Rightarrow> Inl (UnboundLocalError, st)
           | Inr (Some False) \<Rightarrow> scan var record rs (Some False) anyjoin st
           | Inr (Some True) \<Rightarrow> scan var record rs (Some True) True (local_join record r st))"

text \<open>The loops \<^verbatim>\<open>for v in var\<close> that read the probing dictionary at the join variables.\<close>

fun instances_of :: "dict \<Rightarrow> string list \<Rightarrow> failure + string list" where
  "instances_of rt [] = Inr []"
| "instances_of rt (v # vs) =
     (case rt v of
        None \<Rightarrow> Inl (KeyError v)
      | Some a \<Rightarrow> bind (instances_of rt vs) (\<lambda>as. Inr (a # as)))"

fun bind_vars :: "dict \<Rightarrow> string list \<Rightarrow> dict \<Rightarrow> failure + dict" where
  "bind_vars rt [] res2 = Inr res2"
| "bind_vars rt (v # vs) res2 =
     (case rt v of
        None \<Rightarrow> Inl (KeyError v)
      | Some a \<Rightarrow> bind_vars rt vs (res2(v \<mapsto> a)))"

text \<open>
  The body of the loop of the join branch for one mapping \<open>rtuple\<close> of the remote source.
  The mapping is copied twice: \<open>res2\<close>, with the join variables set from the probing
  dictionary (\<open>bound\<close> is its content after that loop), goes into the right table in a
  new record; \<open>res\<close>, updated with the whole probing dictionary, goes to the results.
\<close>

definition remote_join :: "env \<Rightarrow> Record \<Rightarrow> nat \<Rightarrow> dict \<Rightarrow> dict \<Rightarrow> nlo \<Rightarrow> nlo" where
  "remote_join env record i rtuple bound st =
     (let (res2, st1) = alloc rtuple st;
          st2 = st1\<lparr>heap := (heap st1)(res2 := bound)\<rparr>;
          (now, st3) = read_clock env st2;
          reg = \<lparr>tuple = res2, ats = now, dts = 0\<rparr>;
          st4 = st3\<lparr>right_table := insertRecord i reg (right_table st3)\<rparr>;
          (res, st5) = alloc rtuple st4;
          st6 = update_at res (heap st5 (tuple record)) st5
      in st6\<lparr>results := results st6 @ [res]\<rparr>)"

text \<open>
  The join branch: the loop \<^verbatim>\<open>while not (rtuple == "EOF")\<close>, over the items that are still
  to arrive on the queue of the remote source, the first of them being the current
  \<^verbatim>\<open>rtuple\<close>.
\<close>

fun receive :: "env \<Rightarrow> string list \<Rightarrow> Record \<Rightarrow> nat \<Rightarrow> msg list \<Rightarrow> nlo \<Rightarrow> nlo outcome" where
  "receive env var record i [] st = Inl (BlocksForever, st)"
| "receive env var record i (EOF # rest) st = Inr st"
| "receive env var record i (Tuple rtuple # rest) st =
     (case bind_vars (heap st (tuple record)) var rtuple of
        Inl e \<Rightarrow> Inl (e, snd (alloc rtuple st))
      | Inr bound \<Rightarrow> receive env var record i rest (remote_join env record i rtuple bound st))"

text \<open>The dictionary \<^verbatim>\<open>res\<close> after \<^verbatim>\<open>for k in self.right.atts: res.update({k: ''})\<close>.\<close>

definition empty_tuple :: "string list \<Rightarrow> dict" where
  "empty_tuple atts = foldl (\<lambda>res k. res(k \<mapsto> [])) Map.empty atts"

text \<open>
  The optional branch: the padding dictionary is created, a record holding a reference
  to it is inserted into the right table, and then the same dictionary is updated with
  the probing dictionary and appended to the results.
\<close>

definition optional_branch :: "env \<Rightarrow> Record \<Rightarrow> nat \<Rightarrow> nlo \<Rightarrow> nlo" where
  "optional_branch env record i st =
     (let (res, st1) = alloc (empty_tuple (right_atts env)) st;
          (now, st2) = read_clock env st1;
          reg = \<lparr>tuple = res, ats = now, dts = 0\<rparr>;
          st3 = st2\<lparr>right_table := insertRecord i reg (right_table st2)\<rparr>;
          st4 = update_at res (heap st3 (tuple record)) st3
      in st4\<lparr>results := results st4 @ [res]\<rparr>)"

text \<open>
  The part of \<^verbatim>\<open>probe\<close> after the scan: the source is contacted and the call is entered in
  \<open>contacted\<close>; the first item on the queue decides between the two branches.
\<close>

definition contact :: "env \<Rightarrow> string list \<Rightarrow> Record \<Rightarrow> nat \<Rightarrow> nlo \<Rightarrow> nlo outcome" where
  "contact env var record i st =
     (case instances_of (heap st (tuple record)) var of
        Inl e \<Rightarrow> Inl (e, st)
      | Inr instances \<Rightarrow>
          (let st1 = st\<lparr>contacted := contacted st @ [instances]\<rparr>
           in case right_execute env var instances of
                [] \<Rightarrow> Inl (BlocksForever, st1)
              | EOF # rest \<Rightarrow> Inr (optional_branch env record i st1)
              | Tuple rtuple # rest \<Rightarrow>
                  receive env var record i (Tuple rtuple # rest) st1))"

text \<open>
  \<^verbatim>\<open>probe(record, i, partition, var, right)\<close>, where \<open>partition\<close> is partition \<open>i\<close> of the
  right table, as \<^verbatim>\<open>insertAndProbe\<close> passes it.
\<close>

definition probe :: "env \<Rightarrow> string list \<Rightarrow> Record \<Rightarrow> nat \<Rightarrow> nlo \<Rightarrow> nlo outcome" where
  "probe env var record i st =
     (let partition = right_table st ! i
      in bind (scan var record partition None False st)
           (\<lambda>(anyjoin, st1).
              if length partition = 0 \<or> \<not> anyjoin then contact env var record i st1
              else Inr st1))"

subsection \<open>Insertion and the operator's run\<close>

text \<open>The loop \<^verbatim>\<open>for var in self.vars: att1 = att1 + tuple[var]\<close>.\<close>

fun att1_of :: "dict \<Rightarrow> string list \<Rightarrow> string \<Rightarrow> failure + string" where
  "att1_of t [] att1 = Inr att1"
| "att1_of t (v # vs) att1 =
     (case t v of None \<Rightarrow> Inl (KeyError v) | Some a \<Rightarrow> att1_of t vs (att1 @ a))"

definition partition_index :: "env \<Rightarrow> string \<Rightarrow> nat" where
  "partition_index env att1 = nat (hash env att1 mod int table_size)"

text \<open>
  \<^verbatim>\<open>insertAndProbe(tuple)\<close>. The item is a mapping taken from the left queue; the sentinel
  is a string, which cannot be indexed by a variable name (the run below never passes
  it).
\<close>

fun insertAndProbe :: "env \<Rightarrow> string list \<Rightarrow> msg \<Rightarrow> nlo \<Rightarrow> nlo outcome" where
  "insertAndProbe env vars EOF st = Inl (TypeError, st)"
| "insertAndProbe env vars (Tuple t) st =
     (case att1_of t vars [] of
        Inl e \<Rightarrow> Inl (e, st)
      | Inr att1 \<Rightarrow>
          (let i = partition_index env att1;
               (a, st1) = alloc t st;
               (now, st2) = read_clock env st1;
               record = \<lparr>tuple = a, ats = now, dts = 0\<rparr>;
               st3 = st2\<lparr>left_table := insertRecord i record (left_table st2)\<rparr>
           in probe env vars record i st3))"

text \<open>
  The first loop of \<^verbatim>\<open>execute\<close>: items are taken from the left queue and appended to
  \<^verbatim>\<open>self.left\<close> until the item just appended is the sentinel.
\<close>

fun drain :: "msg list \<Rightarrow> msg list \<Rightarrow> failure + msg list" where
  "drain [] left = Inl BlocksForever"
| "drain (EOF # rest) left = Inr (left @ [EOF])"
| "drain (Tuple t # rest) left = drain rest (left @ [Tuple t])"

text \<open>
  The second loop: \<^verbatim>\<open>while len(self.left) > 1\<close> the head is popped and probed.
\<close>

fun process_left :: "env \<Rightarrow> string list \<Rightarrow> msg list \<Rightarrow> nlo \<Rightarrow> nlo outcome" where
  "process_left env vars [] st = Inr st"
| "process_left env vars [m] st = Inr st"
| "process_left env vars (m # m' # rest) st =
     bind (insertAndProbe env vars m st) (process_left env vars (m' # rest))"

text \<open>The third loop and the final \<^verbatim>\<open>put("EOF")\<close>.\<close>

definition flush :: "nlo \<Rightarrow> nlo" where
  "flush st =
     st\<lparr>qresults := qresults st @ map (\<lambda>a. Tuple (heap st a)) (results st) @ [EOF],
        results := []\<rparr>"

text \<open>
  \<^verbatim>\<open>NestedLoopOptional.execute(qleft, qright, out)\<close> on a state \<open>st\<close> of the operator, with
  \<open>vars\<close> the list \<^verbatim>\<open>self.vars\<close> of join variables; \<^verbatim>\<open>qright\<close> is the remote source of \<open>env\<close>.
\<close>

definition NLO_execute :: "env \<Rightarrow> string list \<Rightarrow> msg list \<Rightarrow> nlo \<Rightarrow> nlo outcome" where
  "NLO_execute env vars qleft st =
     (case drain qleft [] of
        Inl e \<Rightarrow> Inl (e, st)
      | Inr left \<Rightarrow> bind (process_left env vars left st) (\<lambda>st'. Inr (flush st')))"

subsection \<open>Example runs\<close>

text \<open>
  A source that answers the instance \<open>a\<close> of \<open>x\<close> with the one mapping \<open>{x: a, z: Z}\<close> and
  everything else with no mapping; the clock ticks by one; the hash is arbitrary.
\<close>

definition cache_env :: "(string \<Rightarrow> int) \<Rightarrow> env" where
  "cache_env h =
     \<lparr>hash = h, clock = int,
      right_execute = (\<lambda>vars instances.
         if instances = [''a''] then [Tuple [''x'' \<mapsto> ''a'', ''z'' \<mapsto> ''Z''], EOF] else [EOF]),
      right_atts = [''x'', ''z'']\<rparr>"

text \<open>A source that never has a mapping, with the attribute \<open>z\<close>.\<close>

definition empty_env :: "(string \<Rightarrow> int) \<Rightarrow> env" where
  "empty_env h =
     \<lparr>hash = h, clock = int, right_execute = (\<lambda>vars instances. [EOF]), right_atts = [''z'']\<rparr>"

text \<open>
  The state of the cache example after the first left mapping \<open>{x: a, y: 1}\<close> has been
  inserted and probed, for the hash that is constantly 0.
\<close>

definition cached_state :: nlo where
  "cached_state =
     final_state (insertAndProbe (cache_env (\<lambda>_. 0)) [''x'']
       (Tuple [''x'' \<mapsto> ''a'', ''y'' \<mapsto> ''1'']) NLO_init)"

subsection \<open>Vocabulary of the properties\<close>

text \<open>
  Dictionary \<open>t\<close> matches the probing dictionary \<open>rt\<close> on the join variables: both bind
  every join variable, to the same value.
\<close>

definition matches :: "string list \<Rightarrow> dict \<Rightarrow> dict \<Rightarrow> bool" where
  "matches vars rt t = (\<forall>v \<in> set vars. rt v \<noteq> None \<and> rt v = t v)"

text \<open>
  A probing record for the left mapping at address 0 of \<open>cached_state\<close>, with a
  timestamp after that of the cached record.
\<close>

definition probing_record :: Record where
  "probing_record = \<lparr>tuple = 0, ats = 5, dts = 0\<rparr>"

text \<open>A record for the same left mapping with a timestamp before that of the cached record.\<close>

definition early_record :: Record where
  "early_record = \<lparr>tuple = 0, ats = 0, dts = 0\<rparr>"

text \<open>The state in which the one left mapping \<open>{x: k}\<close> has been entered in the store.\<close>

definition one_left_state :: nlo where
  "one_left_state = snd (alloc [''x'' \<mapsto> ''k''] NLO_init)"

text \<open>Dictionary \<open>t\<close> binds every join variable.\<close>

definition binds :: "string list \<Rightarrow> dict \<Rightarrow> bool" where
  "binds vars t = list_all (\<lambda>v. t v \<noteq> None) vars"

text \<open>
  The string that \<^verbatim>\<open>insertAndProbe\<close> hashes for a dictionary that binds the join
  variables, and the records of the right table that a left mapping \<open>l\<close> joins with:
  those of the partition of its key that match it.
\<close>

definition key_of :: "string list \<Rightarrow> dict \<Rightarrow> string" where
  "key_of vars t = concat (map (\<lambda>v. the (t v)) vars)"

definition matching :: "env \<Rightarrow> string list \<Rightarrow> nlo \<Rightarrow> dict \<Rightarrow> Record list" where
  "matching env vars st l =
     filter (\<lambda>r. matches vars l (heap st (tuple r)))
       (right_table st ! partition_index env (key_of vars l))"

text \<open>
  An output dictionary combines a left mapping \<open>l\<close> and a record's dictionary \<open>r\<close>: it
  binds the variables of either, each to the value it has in \<open>l\<close> or in \<open>r\<close>.
\<close>

definition combines :: "dict \<Rightarrow> dict \<Rightarrow> dict \<Rightarrow> bool" where
  "combines l out r = (dom out = dom l \<union> dom r \<and> (\<forall>v. out v = l v \<or> out v = r v))"

text \<open>
  The invariant of the right table during a run: every record sits in the partition of
  its own key, its dictionary is in the store and binds the join variables, and its
  timestamp is an earlier reading of the clock; the results are addresses in the store.
\<close>

definition record_ok :: "env \<Rightarrow> string list \<Rightarrow> nlo \<Rightarrow> nat \<Rightarrow> Record \<Rightarrow> bool" where
  "record_ok env vars st i r =
     (tuple r < next_addr st \<and> binds vars (heap st (tuple r))
      \<and> (\<exists>k < ticks st. ats r = clock env k)
      \<and> partition_index env (key_of vars (heap st (tuple r))) = i)"

definition inv :: "env \<Rightarrow> string list \<Rightarrow> nlo \<Rightarrow> bool" where
  "inv env vars st =
     (length (right_table st) = table_size
      \<and> (\<forall>i < table_size. list_all (record_ok env vars st i) (right_table st ! i))
      \<and> list_all (\<lambda>a. a < next_addr st) (results st))"

text \<open>
  State \<open>st'\<close> extends \<open>st\<close> by the records \<open>regs\<close> in partition \<open>i\<close> of the right table and
  by the results \<open>new\<close>, for the probing dictionary \<open>L\<close>: records and results correspond
  one to one, each result combines \<open>L\<close> with its record's dictionary, each new record
  matches \<open>L\<close> and is stamped with a reading taken in between, the new dictionaries are
  new addresses, and the dictionaries of \<open>st\<close> are unchanged.
\<close>

definition grows ::
  "env \<Rightarrow> string list \<Rightarrow> nat \<Rightarrow> dict \<Rightarrow> nlo \<Rightarrow> nlo \<Rightarrow> addr list \<Rightarrow> Record list \<Rightarrow> bool"
where
  "grows env var i L st st' new regs =
     (results st' = results st @ new
      \<and> right_table st' = (right_table st)[i := right_table st ! i @ regs]
      \<and> list_all2 (\<lambda>a reg. combines L (heap st' a) (heap st' (tuple reg))) new regs
      \<and> list_all (\<lambda>reg. next_addr st \<le> tuple reg \<and> tuple reg < next_addr st'
                     \<and> matches var L (heap st' (tuple reg))
                     \<and> (\<exists>k. ticks st \<le> k \<and> k < ticks st' \<and> ats reg = clock env k)) regs
      \<and> list_all (\<lambda>a. next_addr st \<le> a \<and> a < next_addr st') new
      \<and> next_addr st \<le> next_addr st'
      \<and> (\<forall>a < next_addr st. heap st' a = heap st a)
      \<and> ticks st \<le> ticks st' \<and> left_table st' = left_table st
      \<and> qresults st' = qresults st)"

text \<open>A source that answers every call with the one mapping \<open>{z: Z}\<close>.\<close>

definition unit_env :: "(string \<Rightarrow> int) \<Rightarrow> env" where
  "unit_env h =
     \<lparr>hash = h, clock = int,
      right_execute = (\<lambda>vars instances. [Tuple [''z'' \<mapsto> ''Z''], EOF]),
      right_atts = [''z'']\<rparr>"

section \<open>Properties of the projection operator\<close>

lemma project_foldl_dom:
  "dom (foldl (project_step t) res vars) = dom res \<union> set (map (\<lambda>v. tl (name v)) vars)"
  by (induction vars arbitrary: res) (auto simp: project_step_def)

lemma project_foldl_val:
  "k \<in> set (map (\<lambda>v. tl (name v)) vars) \<Longrightarrow>
   foldl (project_step t) res vars k = Some (case t k of None \<Rightarrow> [] | Some aux \<Rightarrow> aux)"
proof (induction vars arbitrary: res rule: rev_induct)
  case Nil
  then show ?case by simp
next
  case (snoc v vs)
  show ?case
  proof (cases "k = tl (name v)")
    case True
    then show ?thesis by (simp add: project_step_def)
  next
    case False
    with snoc.prems have "k \<in> set (map (\<lambda>v. tl (name v)) vs)" by auto
    from snoc.IH [OF this] False show ?thesis by (simp add: project_step_def)
  qed
qed

lemma Xproject_loop_run:
  assumes "vars \<noteq> []" and "0 < limit \<longrightarrow> i < limit"
  shows "Xproject_loop vars limit i (map Tuple ts @ EOF # rest) out =
         (if 0 < limit \<and> limit \<le> i + int (length ts)
          then Inr (out @ map (\<lambda>t. Tuple (project vars t)) (take (nat (limit - i)) ts) @ [EOF],
                    map Tuple (drop (nat (limit - i)) ts) @ EOF # rest)
          else Inr (out @ map (\<lambda>t. Tuple (project vars t)) ts @ [EOF], rest))"
  using assms(2)
proof (induction ts arbitrary: i out)
  case Nil
  then show ?case by auto
next
  case (Cons t ts)
  show ?case
  proof (cases "0 < limit \<and> limit \<le> i + 1")
    case True
    with Cons.prems have "limit - i = 1" by auto
    with True assms(1) show ?thesis by auto
  next
    case False
    with Cons.prems have nxt: "0 < limit \<longrightarrow> i + 1 < limit" by auto
    have step: "nat (limit - i) = Suc (nat (limit - (i + 1)))" if "0 < limit"
      using that nxt by auto
    from False assms(1) Cons.IH [OF nxt, of "out @ [Tuple (project vars t)]"] step
    show ?thesis by (auto simp: add.assoc)
  qed
qed

text \<open>
  C7. With a non-empty projection list, on an input of mappings \<open>ts\<close> followed by the
  sentinel, the operator puts one mapping per mapping read, then the sentinel; each
  output mapping has exactly the projection names without their first character as
  keys, bound to the input's value or to the empty string; with a positive limit not
  above the number of input mappings it reads and emits exactly \<open>limit\<close> mappings and
  leaves the rest of the input unread. On the three mappings of the example with
  projection \<open>?a\<close> and limit 2 the output is \<open>{a:1}\<close>, \<open>{a:3}\<close>, then the sentinel.
\<close>

theorem Xproject_execute_projects:
  "vars \<noteq> [] \<longrightarrow>
     Xproject_execute vars limit (map Tuple ts @ EOF # rest) =
       Inr (map (\<lambda>t. Tuple (project vars t)) (take (emitted_count limit (length ts)) ts) @ [EOF],
            (if 0 < limit \<and> limit \<le> int (length ts)
             then map Tuple (drop (nat limit) ts) @ EOF # rest else rest))
     \<and> dom (project vars t) = set (map (\<lambda>v. tl (name v)) vars)
     \<and> (\<forall>k \<in> set (map (\<lambda>v. tl (name v)) vars).
           project vars t k = Some (case t k of None \<Rightarrow> [] | Some aux \<Rightarrow> aux))
     \<and> Xproject_execute [mkArgument ''?a'' False] 2
         [Tuple [''a'' \<mapsto> ''1'', ''b'' \<mapsto> ''2''], Tuple [''a'' \<mapsto> ''3'', ''b'' \<mapsto> ''4''],
          Tuple [''a'' \<mapsto> ''5'', ''b'' \<mapsto> ''6''], EOF]
       = Inr ([Tuple [''a'' \<mapsto> ''1''], Tuple [''a'' \<mapsto> ''3''], EOF],
              [Tuple [''a'' \<mapsto> ''5'', ''b'' \<mapsto> ''6''], EOF])"
proof (intro impI conjI)
  assume ne: "vars \<noteq> []"
  have "Xproject_loop vars limit 0 (map Tuple ts @ EOF # rest) [] =
        (if 0 < limit \<and> limit \<le> 0 + int (length ts)
          then Inr ([] @ map (\<lambda>t. Tuple (project vars t)) (take (nat (limit - 0)) ts) @ [EOF],
                    map Tuple (drop (nat (limit - 0)) ts) @ EOF # rest)
          else Inr ([] @ map (\<lambda>t. Tuple (project vars t)) ts @ [EOF], rest))"
    by (rule Xproject_loop_run [OF ne]) simp
  then show "Xproject_execute vars limit (map Tuple ts @ EOF # rest) =
       Inr (map (\<lambda>t. Tuple (project vars t)) (take (emitted_count limit (length ts)) ts) @ [EOF],
            (if 0 < limit \<and> limit \<le> int (length ts)
             then map Tuple (drop (nat limit) ts) @ EOF # rest else rest))"
    by (simp add: Xproject_execute_def emitted_count_def)
next
  show "dom (project vars t) = set (map (\<lambda>v. tl (name v)) vars)"
    unfolding project_def by (simp add: project_foldl_dom)
next
  show "\<forall>k \<in> set (map (\<lambda>v. tl (name v)) vars).
           project vars t k = Some (case t k of None \<Rightarrow> [] | Some aux \<Rightarrow> aux)"
    unfolding project_def using project_foldl_val by blast
next
  show "Xproject_execute [mkArgument ''?a'' False] 2
         [Tuple [''a'' \<mapsto> ''1'', ''b'' \<mapsto> ''2''], Tuple [''a'' \<mapsto> ''3'', ''b'' \<mapsto> ''4''],
          Tuple [''a'' \<mapsto> ''5'', ''b'' \<mapsto> ''6''], EOF]
       = Inr ([Tuple [''a'' \<mapsto> ''1''], Tuple [''a'' \<mapsto> ''3''], EOF],
              [Tuple [''a'' \<mapsto> ''5'', ''b'' \<mapsto> ''6''], EOF])"
    by (simp add: Xproject_execute_def project_def project_step_def mkArgument_def)
qed

theorem Xproject_execute_projects_witness:
  "[mkArgument ''?x'' False] \<noteq> []
   \<and> Xproject_execute [mkArgument ''?x'' False] 1
       (map Tuple [[''x'' \<mapsto> ''u''], [''y'' \<mapsto> ''v'']] @ EOF # []) =
     Inr ([Tuple [''x'' \<mapsto> ''u''], EOF], [Tuple [''y'' \<mapsto> ''v''], EOF])
   \<and> project [mkArgument ''?x'' False] [''y'' \<mapsto> ''v''] ''x'' = Some []"
proof -
  have ne: "[mkArgument ''?x'' False] \<noteq> []" by simp
  from Xproject_execute_projects
    [of "[mkArgument ''?x'' False]" 1 "[[''x'' \<mapsto> ''u''], [''y'' \<mapsto> ''v'']]" "[]"
        "[''y'' \<mapsto> ''v'']"] ne
  show ?thesis
    by (simp add: emitted_count_def project_def project_step_def mkArgument_def)
qed

section \<open>Properties of the algebra tree\<close>

subsection \<open>Service ordering\<close>

text \<open>
  Comparing a service with itself never yields \<open>False\<close>: every strict test of the chain
  is between equal numbers, so the call reaches \<^verbatim>\<open>else: return True\<close> under the equal
  percentages, unless one of the counting methods raises.
\<close>

lemma Service_lt_self: "Service_lt s s = Inr True \<or> (\<exists>e. Service_lt s s = Inl e)"
  unfolding Service_lt_def bind_def
  by (auto split: sum.splits)

lemma S1_counts:
  "const_subjects S1_example = Inr 1" "const_predicates S1_example = Inr 1"
  "const_objects S1_example = Inr 0"
  by (simp_all add: S1_example_def mkService_def tp_def mkArgument_def const_subjects_def
        const_predicates_def const_objects_def bind_def)

lemma S2_counts:
  "const_subjects S2_example = Inr 0" "const_predicates S2_example = Inr 2"
  "const_objects S2_example = Inr 1"
  by (simp_all add: S2_example_def mkService_def tp_def mkArgument_def const_subjects_def
        const_predicates_def const_objects_def bind_def)

text \<open>
  C4 (irreflexivity of \<^verbatim>\<open>Service.__lt__\<close>). The claim asks that \<open>s < s\<close> be false for every
  service. For the service \<open>S1_example\<close> the comparison with itself returns \<open>True\<close>.
\<close>

theorem Service_lt_irreflexivity_fails:
  "Service_lt S1_example S1_example = Inr True"
  using Service_lt_self [of S1_example]
  apply (simp add: Service_lt_def S1_counts bind_def)
  apply (simp add: constantPercentage_def S1_example_def mkService_def tp_def mkArgument_def bind_def true_div_def)
  done

text \<open>
  C5, as the code has it. For any two nodes with the constant counts of the example
  (subjects, predicates, objects: 1, 1, 0 for the first and 0, 2, 1 for the second) the
  comparison \<open>S1 < S2\<close> returns \<open>True\<close> and \<open>S2 < S1\<close> returns \<open>False\<close>: with equal
  sums of subject and predicate constants, the node with more constant subjects is the
  smaller one.
\<close>

theorem Service_lt_more_constants_first:
  assumes "const_subjects s1 = Inr 1" "const_predicates s1 = Inr 1" "const_objects s1 = Inr 0"
    and "const_subjects s2 = Inr 0" "const_predicates s2 = Inr 2" "const_objects s2 = Inr 1"
  shows "Service_lt s1 s2 = Inr True \<and> Service_lt s2 s1 = Inr False"
  using assms by (simp add: Service_lt_def bind_def)

theorem Service_lt_more_constants_first_witness:
  "const_subjects S1_example = Inr 1 \<and> const_predicates S1_example = Inr 1
   \<and> const_objects S1_example = Inr 0 \<and> const_subjects S2_example = Inr 0
   \<and> const_predicates S2_example = Inr 2 \<and> const_objects S2_example = Inr 1
   \<and> Service_lt S1_example S2_example = Inr True
   \<and> Service_lt S2_example S1_example = Inr False"
  using Service_lt_more_constants_first [OF S1_counts S2_counts] S1_counts S2_counts
  by simp

text \<open>
  The outcome the specification gives for the example (\<open>S1 < S2\<close> false and \<open>S2 < S1\<close>
  true) is not what the comparison returns.
\<close>

theorem Service_lt_S1_S2_counterexample:
  "\<not> (Service_lt S1_example S2_example = Inr False
      \<and> Service_lt S2_example S1_example = Inr True)"
  by (simp add: Service_lt_def S1_counts S2_counts bind_def)

text \<open>
  Transitivity does hold. A comparison that returns \<open>True\<close> was decided by the first
  strict difference in the sequence: sum of subject and predicate constants, subject
  constants, object constants, constant percentage; or, when all of these are equal, by
  \<open>other.cn \<le> self.cn\<close>. The lemmas below read one decision off each comparison, and
  the two decisions compose.
\<close>

lemma Service_lt_defined:
  assumes "Service_lt s ot = Inr r"
  obtains ocs ocp scs scp where "const_subjects ot = Inr ocs" "const_predicates ot = Inr ocp"
    "const_subjects s = Inr scs" "const_predicates s = Inr scp"
  using assms unfolding Service_lt_def bind_def
  by (cases "const_subjects ot"; cases "const_predicates ot"; cases "const_subjects s";
      cases "const_predicates s") simp_all

lemma Service_lt_early:
  assumes "const_subjects ot = Inr ocs" "const_predicates ot = Inr ocp"
    "const_subjects s = Inr scs" "const_predicates s = Inr scp"
    and "ocs + ocp \<noteq> scs + scp \<or> ocs \<noteq> scs"
  shows "Service_lt s ot = Inr (ocs + ocp < scs + scp \<or> (ocs + ocp = scs + scp \<and> ocs < scs))"
  using assms unfolding Service_lt_def bind_def by auto

lemma Service_lt_objects:
  assumes "const_subjects ot = Inr cs" "const_predicates ot = Inr cp"
    "const_subjects s = Inr cs" "const_predicates s = Inr cp"
    and "Service_lt s ot = Inr r"
  obtains oco sco where "const_objects ot = Inr oco" "const_objects s = Inr sco"
  using assms unfolding Service_lt_def bind_def
  by (cases "const_objects ot"; cases "const_objects s") simp_all

lemma Service_lt_mid:
  assumes "const_subjects ot = Inr cs" "const_predicates ot = Inr cp"
    "const_subjects s = Inr cs" "const_predicates s = Inr cp"
    "const_objects ot = Inr oco" "const_objects s = Inr sco" and "oco \<noteq> sco"
  shows "Service_lt s ot = Inr (oco < sco)"
  using assms unfolding Service_lt_def bind_def by auto

lemma Service_lt_late:
  assumes "const_subjects ot = Inr cs" "const_predicates ot = Inr cp"
    "const_subjects s = Inr cs" "const_predicates s = Inr cp"
    "const_objects ot = Inr co" "const_objects s = Inr co"
  shows "Service_lt s ot =
     bind (constantPercentage ot) (\<lambda>opc. bind (constantPercentage s) (\<lambda>spc.
       if opc = spc
       then bind (constantNumber ot) (\<lambda>ocn. bind (constantNumber s) (\<lambda>scn. Inr (ocn \<le> scn)))
       else Inr (opc < spc)))"
  using assms unfolding Service_lt_def bind_def
  by (auto split: sum.splits)


lemma Service_lt_late_True:
  assumes "const_subjects ot = Inr cs" "const_predicates ot = Inr cp"
    "const_subjects s = Inr cs" "const_predicates s = Inr cp"
    "const_objects ot = Inr co" "const_objects s = Inr co"
    and "Service_lt s ot = Inr True"
  obtains opc spc where "constantPercentage ot = Inr opc" "constantPercentage s = Inr spc"
    "opc < spc \<or> (opc = spc \<and> (\<exists>ocn scn. constantNumber ot = Inr ocn \<and>
        constantNumber s = Inr scn \<and> ocn \<le> scn))"
proof -
  from assms(7) have
    "bind (constantPercentage ot) (\<lambda>opc. bind (constantPercentage s) (\<lambda>spc.
       if opc = spc
       then bind (constantNumber ot) (\<lambda>ocn. bind (constantNumber s) (\<lambda>scn. Inr (ocn \<le> scn)))
       else Inr (opc < spc))) = Inr True"
    using Service_lt_late [OF assms(1-6)] by simp
  then have "\<exists>opc spc. constantPercentage ot = Inr opc \<and> constantPercentage s = Inr spc \<and>
    (opc < spc \<or> (opc = spc \<and> (\<exists>ocn scn. constantNumber ot = Inr ocn \<and>
        constantNumber s = Inr scn \<and> ocn \<le> scn)))"
    unfolding bind_def by (auto split: sum.splits if_splits)
  then show thesis using that by blast
qed

lemma Service_lt_True_cases:
  assumes "Service_lt s ot = Inr True"
  obtains ocs ocp scs scp where "const_subjects ot = Inr ocs" "const_predicates ot = Inr ocp"
    "const_subjects s = Inr scs" "const_predicates s = Inr scp"
    "ocs + ocp < scs + scp \<or> (ocs + ocp = scs + scp \<and> ocs < scs) \<or>
     (ocs = scs \<and> ocp = scp \<and> (\<exists>oco sco. const_objects ot = Inr oco \<and>
        const_objects s = Inr sco \<and> (oco < sco \<or> (oco = sco \<and>
          (\<exists>opc spc. constantPercentage ot = Inr opc \<and> constantPercentage s = Inr spc \<and>
             (opc < spc \<or> (opc = spc \<and> (\<exists>ocn scn. constantNumber ot = Inr ocn \<and>
                constantNumber s = Inr scn \<and> ocn \<le> scn))))))))"
proof -
  from assms obtain ocs ocp scs scp where d: "const_subjects ot = Inr ocs"
    "const_predicates ot = Inr ocp" "const_subjects s = Inr scs" "const_predicates s = Inr scp"
    by (rule Service_lt_defined)
  show thesis
  proof (cases "ocs + ocp \<noteq> scs + scp \<or> ocs \<noteq> scs")
    case True
    from Service_lt_early [OF d True] assms
    have "ocs + ocp < scs + scp \<or> (ocs + ocp = scs + scp \<and> ocs < scs)" by simp
    with d show thesis using that by blast
  next
    case False
    then have e: "ocs = scs" "ocp = scp" by auto
    from d e have d': "const_subjects ot = Inr scs" "const_predicates ot = Inr scp" by simp_all
    from d' d(3,4) assms obtain oco sco where
      c: "const_objects ot = Inr oco" "const_objects s = Inr sco"
      by (rule Service_lt_objects)
    show thesis
    proof (cases "oco = sco")
      case False
      from Service_lt_mid [OF d' d(3,4) c False] assms have "oco < sco" by simp
      with d e c show thesis using that by blast
    next
      case True
      with c have c': "const_objects ot = Inr sco" by simp
      from d' d(3,4) c' c(2) assms obtain opc spc where
        "constantPercentage ot = Inr opc" "constantPercentage s = Inr spc"
        "opc < spc \<or> (opc = spc \<and> (\<exists>ocn scn. constantNumber ot = Inr ocn \<and>
           constantNumber s = Inr scn \<and> ocn \<le> scn))"
        by (rule Service_lt_late_True)
      with d e c True show thesis using that by blast
    qed
  qed
qed


lemma Service_lt_TrueI:
  assumes d: "const_subjects ot = Inr ocs" "const_predicates ot = Inr ocp"
    "const_subjects s = Inr scs" "const_predicates s = Inr scp"
    and k: "ocs + ocp < scs + scp \<or> (ocs + ocp = scs + scp \<and> ocs < scs) \<or>
     (ocs = scs \<and> ocp = scp \<and> (\<exists>oco sco. const_objects ot = Inr oco \<and>
        const_objects s = Inr sco \<and> (oco < sco \<or> (oco = sco \<and>
          (\<exists>opc spc. constantPercentage ot = Inr opc \<and> constantPercentage s = Inr spc \<and>
             (opc < spc \<or> (opc = spc \<and> (\<exists>ocn scn. constantNumber ot = Inr ocn \<and>
                constantNumber s = Inr scn \<and> ocn \<le> scn))))))))"
  shows "Service_lt s ot = Inr True"
proof (cases "ocs + ocp \<noteq> scs + scp \<or> ocs \<noteq> scs")
  case True
  with k have "ocs + ocp < scs + scp \<or> (ocs + ocp = scs + scp \<and> ocs < scs)" by auto
  with Service_lt_early [OF d True] show ?thesis by simp
next
  case False
  then have e: "ocs = scs" "ocp = scp" by auto
  from d e have d': "const_subjects ot = Inr scs" "const_predicates ot = Inr scp" by simp_all
  from k e obtain oco sco where c: "const_objects ot = Inr oco" "const_objects s = Inr sco"
    and k': "oco < sco \<or> (oco = sco \<and>
          (\<exists>opc spc. constantPercentage ot = Inr opc \<and> constantPercentage s = Inr spc \<and>
             (opc < spc \<or> (opc = spc \<and> (\<exists>ocn scn. constantNumber ot = Inr ocn \<and>
                constantNumber s = Inr scn \<and> ocn \<le> scn)))))"
    by auto
  show ?thesis
  proof (cases "oco = sco")
    case False
    with k' have "oco < sco" by simp
    with Service_lt_mid [OF d' d(3,4) c False] show ?thesis by simp
  next
    case True
    with c have c': "const_objects ot = Inr sco" by simp
    from k' True obtain opc spc where p: "constantPercentage ot = Inr opc"
      "constantPercentage s = Inr spc"
      and k'': "opc < spc \<or> (opc = spc \<and> (\<exists>ocn scn. constantNumber ot = Inr ocn \<and>
                constantNumber s = Inr scn \<and> ocn \<le> scn))"
      by auto
    show ?thesis
      unfolding Service_lt_late [OF d' d(3,4) c' c(2)]
      using p k'' by (auto simp: bind_def)
  qed
qed

lemma Service_lt_transitive:
  assumes ab: "Service_lt a b = Inr True" and bc: "Service_lt b c = Inr True"
  shows "Service_lt a c = Inr True"
proof -
  from ab obtain bcs bcp acs acp where
    d1: "const_subjects b = Inr bcs" "const_predicates b = Inr bcp"
        "const_subjects a = Inr acs" "const_predicates a = Inr acp"
    and k1: "bcs + bcp < acs + acp \<or> (bcs + bcp = acs + acp \<and> bcs < acs) \<or>
     (bcs = acs \<and> bcp = acp \<and> (\<exists>oco sco. const_objects b = Inr oco \<and>
        const_objects a = Inr sco \<and> (oco < sco \<or> (oco = sco \<and>
          (\<exists>opc spc. constantPercentage b = Inr opc \<and> constantPercentage a = Inr spc \<and>
             (opc < spc \<or> (opc = spc \<and> (\<exists>ocn scn. constantNumber b = Inr ocn \<and>
                constantNumber a = Inr scn \<and> ocn \<le> scn))))))))"
    by (rule Service_lt_True_cases)
  from bc obtain ccs ccp bcs' bcp' where
    d2: "const_subjects c = Inr ccs" "const_predicates c = Inr ccp"
        "const_subjects b = Inr bcs'" "const_predicates b = Inr bcp'"
    and k2: "ccs + ccp < bcs' + bcp' \<or> (ccs + ccp = bcs' + bcp' \<and> ccs < bcs') \<or>
     (ccs = bcs' \<and> ccp = bcp' \<and> (\<exists>oco sco. const_objects c = Inr oco \<and>
        const_objects b = Inr sco \<and> (oco < sco \<or> (oco = sco \<and>
          (\<exists>opc spc. constantPercentage c = Inr opc \<and> constantPercentage b = Inr spc \<and>
             (opc < spc \<or> (opc = spc \<and> (\<exists>ocn scn. constantNumber c = Inr ocn \<and>
                constantNumber b = Inr scn \<and> ocn \<le> scn))))))))"
    by (rule Service_lt_True_cases)
  from d1 d2 have e: "bcs' = bcs" "bcp' = bcp" by simp_all
  note I = Service_lt_TrueI [OF d2(1,2) d1(3,4)]
  let ?early1 = "bcs + bcp < acs + acp \<or> (bcs + bcp = acs + acp \<and> bcs < acs)"
  let ?early2 = "ccs + ccp < bcs + bcp \<or> (ccs + ccp = bcs + bcp \<and> ccs < bcs)"
  show ?thesis
  proof (cases "?early1 \<or> ?early2")
    case True
    from k1 have "?early1 \<or> (bcs = acs \<and> bcp = acp)" by blast
    moreover from k2 have "?early2 \<or> (ccs = bcs \<and> ccp = bcp)" unfolding e by blast
    ultimately have "ccs + ccp < acs + acp \<or> (ccs + ccp = acs + acp \<and> ccs < acs)"
      using True by auto
    then show ?thesis by (intro I) blast
  next
    case False
    from False k1 have e1: "bcs = acs" "bcp = acp" by auto
    from False k2 have e2: "ccs = bcs" "ccp = bcp" unfolding e by auto
    from False k1 obtain bco aco where o1: "const_objects b = Inr bco" "const_objects a = Inr aco"
      and m1: "bco < aco \<or> (bco = aco \<and>
          (\<exists>opc spc. constantPercentage b = Inr opc \<and> constantPercentage a = Inr spc \<and>
             (opc < spc \<or> (opc = spc \<and> (\<exists>ocn scn. constantNumber b = Inr ocn \<and>
                constantNumber a = Inr scn \<and> ocn \<le> scn)))))"
      by blast
    from False k2 obtain cco bco' where o2: "const_objects c = Inr cco" "const_objects b = Inr bco'"
      and m2: "cco < bco' \<or> (cco = bco' \<and>
          (\<exists>opc spc. constantPercentage c = Inr opc \<and> constantPercentage b = Inr spc \<and>
             (opc < spc \<or> (opc = spc \<and> (\<exists>ocn scn. constantNumber c = Inr ocn \<and>
                constantNumber b = Inr scn \<and> ocn \<le> scn)))))"
      unfolding e by blast
    from o1 o2 have eo: "bco' = bco" by simp
    show ?thesis
    proof (cases "bco < aco \<or> cco < bco")
      case True
      with m1 m2 have "cco < aco" unfolding eo by auto
      with o1 o2 e1 e2 show ?thesis by (intro I) blast
    next
      case False
      with m1 m2 have eo': "bco = aco" "cco = bco" unfolding eo by auto
      from False m1 obtain bpc apc where p1: "constantPercentage b = Inr bpc"
        "constantPercentage a = Inr apc"
        and l1: "bpc < apc \<or> (bpc = apc \<and> (\<exists>ocn scn. constantNumber b = Inr ocn \<and>
                constantNumber a = Inr scn \<and> ocn \<le> scn))"
        by blast
      from False m2 obtain cpc bpc' where p2: "constantPercentage c = Inr cpc"
        "constantPercentage b = Inr bpc'"
        and l2: "cpc < bpc' \<or> (cpc = bpc' \<and> (\<exists>ocn scn. constantNumber c = Inr ocn \<and>
                constantNumber b = Inr scn \<and> ocn \<le> scn))"
        unfolding eo by blast
      from p1 p2 have ep: "bpc' = bpc" by simp
      have "cpc < apc \<or> (cpc = apc \<and> (\<exists>ocn scn. constantNumber c = Inr ocn \<and>
                constantNumber a = Inr scn \<and> ocn \<le> scn))"
      proof (cases "bpc < apc \<or> cpc < bpc")
        case True
        with l1 l2 show ?thesis unfolding ep by auto
      next
        case False
        with l1 l2 have epc: "bpc = apc" "cpc = bpc" unfolding ep by auto
        from False l1 obtain bcn acn where n1: "constantNumber b = Inr bcn"
          "constantNumber a = Inr acn" "bcn \<le> acn" by blast
        from False l2 obtain ccn bcn' where n2: "constantNumber c = Inr ccn"
          "constantNumber b = Inr bcn'" "ccn \<le> bcn'" unfolding ep by blast
        from n1 n2 have "ccn \<le> acn" by simp
        with n1 n2 epc show ?thesis by blast
      qed
      with o1 o2 e1 e2 eo' p1 p2 show ?thesis by (intro I) blast
    qed
  qed
qed

subsection \<open>Constant percentage\<close>

text \<open>
  C6 (\<^verbatim>\<open>constantPercentage\<close> on a node without slots). A union block and a join block
  with an empty child list have \<open>places = 0\<close>, and \<^verbatim>\<open>constantPercentage\<close> raises
  \<^verbatim>\<open>ZeroDivisionError\<close> on them; a service with an empty child list returns 0.
\<close>

theorem constantPercentage_empty_block_raises:
  "places (UnionBlockN (Many []) []) = Inr 0
   \<and> constantPercentage (UnionBlockN (Many []) []) = Inl ZeroDivisionError
   \<and> constantPercentage (JoinBlockN (Many []) [] []) = Inl ZeroDivisionError
   \<and> constantPercentage (ServiceN sf (Many []) fs) = Inr 0"
  by (simp add: constantPercentage_def bind_def true_div_def)

subsection \<open>Instantiation of blocks\<close>

text \<open>
  C8 (\<^verbatim>\<open>UnionBlock.instantiate\<close>). Instantiating the union \<open>union_example\<close>, which carries
  a filter, returns a join block without filters.
\<close>

theorem UnionBlock_instantiate_returns_JoinBlock:
  "instantiate [''s'' \<mapsto> ''<http://ex/a>''] union_example =
     Inr (JoinBlockN
            (Many [JoinBlockN (Many [tp ''<http://ex/a>'' True ''<http://ex/p>'' True ''?o'' False]) [] []])
            [] [])"
  by (simp add: union_example_def tp_def mkArgument_def instantiate_arg_def bind_def)

text \<open>
  The same for every union block over a list: whenever the call returns, the result is a
  join block with no filters. The sibling \<^verbatim>\<open>JoinBlock.instantiate\<close> returns a node of its
  own kind and keeps its filters.
\<close>

lemma UnionBlock_instantiate_kind:
  "instantiate d (UnionBlockN (Many ts) fs) = Inr n \<Longrightarrow> \<exists>ts'. n = JoinBlockN (Many ts') [] []"
  by (auto simp: bind_def split: sum.splits)

lemma JoinBlock_instantiate_kind:
  "instantiate d (JoinBlockN (Many ts) fs fstr) = Inr n \<Longrightarrow> \<exists>ts'. n = JoinBlockN (Many ts') fs []"
  by (auto simp: bind_def split: sum.splits)

section \<open>Properties of the term-map translation\<close>

text \<open>
  For a constant term map the re-quoted argument always starts with a single quote, so
  it equals the stored value only if that value itself is written with single quotes.
\<close>

lemma requoted_starts_with_quote:
  "tt \<noteq> BNode \<Longrightarrow> requoted tt n = Inr v \<Longrightarrow> \<exists>w. v = squote # w"
  by (auto simp: requoted_def single_quoted_def split: list.splits if_splits)

text \<open>
  C9 (constant against constant). The term map \<^verbatim>\<open>TermMap("Addis Ababa", CONSTANT, Literal)\<close>
  compared with the constant argument \<^verbatim>\<open>"Addis Ababa"\<close> (written with or without its
  double quotes) yields the trivially false condition, the same as the comparison with
  the constant \<^verbatim>\<open>"Other"\<close>: the argument is re-quoted to \<^verbatim>\<open>'Addis Ababa'\<close> before it is
  compared with the unquoted value of the term map.
\<close>

theorem constant_vs_equal_constant_is_false:
  "map_sum id filter_conditions
     (TermMap2SQL_init (mkTermMap ''Addis Ababa'' CONSTANT Literal)
        (mkArgument ([dquote] @ ''Addis Ababa'' @ [dquote]) True) ''='' None None)
     = Inr (Some trivially_false)
   \<and> map_sum id filter_conditions
       (TermMap2SQL_init (mkTermMap ''Addis Ababa'' CONSTANT Literal)
          (mkArgument ''Addis Ababa'' True) ''='' None None)
     = Inr (Some trivially_false)
   \<and> map_sum id filter_conditions
       (TermMap2SQL_init (mkTermMap ''Addis Ababa'' CONSTANT Literal)
          (mkArgument ([dquote] @ ''Other'' @ [dquote]) True) ''='' None None)
     = Inr (Some trivially_false)"
  by (simp add: TermMap2SQL_init_def get_sql_term_def get_filter_condition_def requoted_def
        mkTermMap_def mkArgument_def bind_def trivially_false_def single_quoted_def
        squote_def dquote_def)

text \<open>
  The same for every constant literal or IRI term map and every constant argument with a
  non-empty name, unless the term map's value is itself written between single quotes:
  the comparison with \<open>=\<close> yields the trivially false condition, whether or not the two
  constants denote the same term.
\<close>

lemma constant_vs_constant_always_false:
  assumes "resource_type tm = CONSTANT" and "term_type tm \<noteq> BNode"
    and "constant' a" and "name a \<noteq> []" and "hd (value' tm) \<noteq> squote \<or> value' tm = []"
  shows "map_sum id filter_conditions (TermMap2SQL_init tm a ''='' ta sch)
           = Inr (Some trivially_false)"
proof -
  from assms(2,4) have "\<exists>w. requoted (term_type tm) (name a) = Inr (squote # w)"
    by (cases "name a") (auto simp: requoted_def single_quoted_def)
  then obtain w where w: "requoted (term_type tm) (name a) = Inr (squote # w)" ..
  from assms(5) have "value' tm \<noteq> squote # w" by auto
  with assms(1,3) w show ?thesis
    by (cases "term_type tm")
       (simp_all add: TermMap2SQL_init_def get_sql_term_def get_filter_condition_def bind_def
          trivially_false_def)
qed

section \<open>Properties of the nested-loop optional operator\<close>

subsection \<open>Tables and dictionaries\<close>

lemma partition_index_less: "partition_index env k < table_size"
  by (simp add: partition_index_def table_size_def)

lemma length_new_table: "length new_table = table_size"
  by (simp add: new_table_def)

lemma new_table_nth: "i < table_size \<Longrightarrow> new_table ! i = []"
  by (simp add: new_table_def)

lemma length_insertRecord: "length (insertRecord i r t) = length t"
  by (simp add: insertRecord_def)

lemma insertRecord_nth:
  "i < length t \<Longrightarrow> insertRecord i r t ! j = (if j = i then t ! i @ [r] else t ! j)"
  by (simp add: insertRecord_def)

lemmas table_simps =
  partition_index_less length_new_table new_table_nth length_insertRecord insertRecord_nth

lemmas run_defs =
  NLO_execute_def probe_def contact_def optional_branch_def local_join_def remote_join_def
  alloc_def update_at_def
  read_clock_def flush_def NLO_init_def bind_def isDuplicated_def Let_def

lemma empty_tuple_foldl:
  "foldl (\<lambda>res k. res(k \<mapsto> [])) m atts k = (if k \<in> set atts then Some [] else m k)"
  by (induction atts arbitrary: m) auto

lemma empty_tuple_apply: "empty_tuple atts k = (if k \<in> set atts then Some [] else None)"
  by (simp add: empty_tuple_def empty_tuple_foldl)

lemma cache_out1:
  "[''x'' \<mapsto> ''a'', ''z'' \<mapsto> ''Z''] ++ [''x'' \<mapsto> ''a'', ''y'' \<mapsto> ''1'']
     = [''x'' \<mapsto> ''a'', ''y'' \<mapsto> ''1'', ''z'' \<mapsto> ''Z'']"
  by (rule ext) simp

lemma cache_out2:
  "[''x'' \<mapsto> ''a'', ''y'' \<mapsto> ''2''] ++ [''x'' \<mapsto> ''a'', ''z'' \<mapsto> ''Z'']
     = [''x'' \<mapsto> ''a'', ''y'' \<mapsto> ''2'', ''z'' \<mapsto> ''Z'']"
  by (rule ext) simp

subsection \<open>A run without join variables\<close>

text \<open>
  C1 (left preservation), at an operator without join variables. With the two left
  mappings \<open>{y: 1}\<close> and \<open>{y: 2}\<close> followed by the sentinel, the first mapping is probed and
  its result is appended to the result list; the probe of the second finds a record in
  the partition, runs the empty loop over the join variables and tests the unassigned
  variable \<^verbatim>\<open>join\<close>. The run fails with \<^verbatim>\<open>UnboundLocalError\<close>, one result is held in
  \<^verbatim>\<open>self.results\<close>, and nothing, not even the sentinel, has been put on the output queue.
\<close>

theorem NLO_execute_without_join_vars_raises:
  "map_sum (\<lambda>(e, st). (e, qresults st, length (results st))) qresults
     (NLO_execute (empty_env h) []
        [Tuple [''y'' \<mapsto> ''1''], Tuple [''y'' \<mapsto> ''2''], EOF] NLO_init)
   = Inl (UnboundLocalError, [], 1)"
  by (simp add: run_defs empty_env_def table_simps)

text \<open>
  C2 (one output per matching pair), at an operator without join variables and a source
  that answers with the mapping \<open>{z: Z}\<close>. After the failed run the partition of the
  empty key holds the record \<open>{z: Z}\<close> cached by the first probe; both left mappings
  agree with it on every join variable, there being none, and no output has been
  emitted for either pair.
\<close>

theorem NLO_pair_without_join_vars_not_emitted:
  "map_sum (\<lambda>(e, st). (e, qresults st,
               map (\<lambda>r. heap st (tuple r)) (right_table st ! partition_index (unit_env h) [])))
     (\<lambda>st. (qresults st, []))
     (NLO_execute (unit_env h) []
        [Tuple [''y'' \<mapsto> ''1''], Tuple [''y'' \<mapsto> ''2''], EOF] NLO_init)
   = Inl (UnboundLocalError, [], [[''z'' \<mapsto> ''Z'']])"
  by (simp add: run_defs unit_env_def table_simps)

subsection \<open>Local matches and the remote source\<close>

lemma join_test_assigned:
  "join_test rt t var join = Inr j \<Longrightarrow> var \<noteq> [] \<or> join \<noteq> None \<Longrightarrow> j \<noteq> None"
  by (induction var arbitrary: join) (auto split: option.splits if_splits)

lemma join_test_matches:
  "matches var rt t \<Longrightarrow> var = [] \<longrightarrow> join = None \<Longrightarrow>
   join_test rt t var join = Inr (if var = [] then None else Some True)"
proof (induction var arbitrary: join)
  case Nil
  then show ?case by simp
next
  case (Cons v vs)
  from Cons.prems(1) have all: "\<forall>w \<in> set (v # vs). rt w \<noteq> None \<and> rt w = t w"
    by (simp only: matches_def)
  then have m: "matches vs rt t"
    unfolding matches_def by (meson list.set_intros(2))
  from all have v: "rt v \<noteq> None" "rt v = t v"
    by (meson list.set_intros(1))+
  from v obtain a where a: "rt v = Some a" "t v = Some a" by (cases "rt v") auto
  show ?case
  proof (cases vs)
    case Nil
    with a show ?thesis by simp
  next
    case (Cons w ws)
    with Cons.IH [OF m, of "Some True"] a show ?thesis by simp
  qed
qed

text \<open>A local join allocates one dictionary and appends it to the results.\<close>

lemma local_join_frame:
  "contacted (local_join record r st) = contacted st"
  "right_table (local_join record r st) = right_table st"
  "left_table (local_join record r st) = left_table st"
  "ticks (local_join record r st) = ticks st"
  "qresults (local_join record r st) = qresults st"
  "next_addr (local_join record r st) = Suc (next_addr st)"
  "results (local_join record r st) = results st @ [next_addr st]"
  "a \<noteq> next_addr st \<Longrightarrow> heap (local_join record r st) a = heap st a"
  by (simp_all add: local_join_def alloc_def update_at_def Let_def)

lemma local_join_heap_new:
  "tuple r \<noteq> next_addr st \<Longrightarrow>
   heap (local_join record r st) (next_addr st) = heap st (tuple record) ++ heap st (tuple r)"
  by (simp add: local_join_def alloc_def update_at_def Let_def)

text \<open>The scan reads the store and appends to it; it never contacts the source.\<close>

lemma scan_cases:
  assumes "\<not> isDuplicated record r"
  obtains (raises) e where
      "join_test (heap st (tuple record)) (heap st (tuple r)) var join = Inl e"
      "scan var record (r # rs) join anyjoin st = Inl (e, st)"
    | (unbound) "join_test (heap st (tuple record)) (heap st (tuple r)) var join = Inr None"
      "scan var record (r # rs) join anyjoin st = Inl (UnboundLocalError, st)"
    | (nojoin)
      "join_test (heap st (tuple record)) (heap st (tuple r)) var join = Inr (Some False)"
      "scan var record (r # rs) join anyjoin st = scan var record rs (Some False) anyjoin st"
    | (join)
      "join_test (heap st (tuple record)) (heap st (tuple r)) var join = Inr (Some True)"
      "scan var record (r # rs) join anyjoin st =
         scan var record rs (Some True) True (local_join record r st)"
proof (cases "join_test (heap st (tuple record)) (heap st (tuple r)) var join")
  case (Inl e)
  with assms raises show ?thesis by simp
next
  case (Inr j)
  show ?thesis
  proof (cases j)
    case None
    with Inr assms unbound show ?thesis by simp
  next
    case (Some b)
    with Inr assms nojoin join show ?thesis by (cases b) simp_all
  qed
qed

lemma scan_frame:
  "scan var record rs join anyjoin st = Inr (aj, st') \<Longrightarrow>
     contacted st' = contacted st \<and> right_table st' = right_table st
     \<and> left_table st' = left_table st \<and> ticks st' = ticks st \<and> qresults st' = qresults st
     \<and> next_addr st \<le> next_addr st' \<and> (\<forall>a < next_addr st. heap st' a = heap st a)
     \<and> (anyjoin \<longrightarrow> aj)"
proof (induction rs arbitrary: join anyjoin st)
  case Nil
  then show ?case by simp
next
  case (Cons r rs)
  show ?case
  proof (cases "isDuplicated record r")
    case True
    with Cons.prems show ?thesis by simp
  next
    case False
    then show ?thesis
    proof (cases rule: scan_cases [of "record" r st var join rs anyjoin])
      case (raises e)
      with Cons.prems show ?thesis by simp
    next
      case unbound
      with Cons.prems show ?thesis by simp
    next
      case nojoin
      with Cons.prems Cons.IH [of "Some False" anyjoin st] show ?thesis by simp
    next
      case join
      with Cons.prems Cons.IH [of "Some True" True "local_join record r st"]
      show ?thesis by (auto simp: local_join_frame)
    qed
  qed
qed

lemma scan_failure_frame:
  "scan var record rs join anyjoin st = Inl (e, st') \<Longrightarrow> contacted st' = contacted st"
proof (induction rs arbitrary: join anyjoin st)
  case Nil
  then show ?case by simp
next
  case (Cons r rs)
  show ?case
  proof (cases "isDuplicated record r")
    case True
    with Cons.prems show ?thesis by simp
  next
    case False
    then show ?thesis
    proof (cases rule: scan_cases [of "record" r st var join rs anyjoin])
      case (raises e)
      with Cons.prems show ?thesis by simp
    next
      case unbound
      with Cons.prems show ?thesis by simp
    next
      case nojoin
      with Cons.prems Cons.IH [of "Some False" anyjoin st] show ?thesis by simp
    next
      case join
      with Cons.prems Cons.IH [of "Some True" True "local_join record r st"]
      show ?thesis by (simp add: local_join_frame)
    qed
  qed
qed

text \<open>
  The scan stops at the first record whose timestamp is later than the probing record's.
  When one of the records before that point matches, a scan that returns has found a
  join.
\<close>

lemma scan_reaches_match:
  assumes "scan var record rs join anyjoin st = Inr (aj, st')"
    and "\<exists>r \<in> set (takeWhile (\<lambda>r. \<not> isDuplicated record r) rs).
           matches var (heap st (tuple record)) (heap st (tuple r))"
    and "var = [] \<longrightarrow> join = None"
  shows aj
  using assms
proof (induction rs arbitrary: join anyjoin st)
  case Nil
  then show ?case by simp
next
  case (Cons r rs)
  from Cons.prems(2) have nd: "\<not> isDuplicated record r"
    by (cases "isDuplicated record r") simp_all
  with Cons.prems(2) have here:
    "matches var (heap st (tuple record)) (heap st (tuple r))
     \<or> (\<exists>r \<in> set (takeWhile (\<lambda>r. \<not> isDuplicated record r) rs).
           matches var (heap st (tuple record)) (heap st (tuple r)))"
    by simp
  from nd show ?case
  proof (cases rule: scan_cases [of "record" r st var join rs anyjoin])
    case (raises e)
    with Cons.prems(1) show ?thesis by simp
  next
    case unbound
    with Cons.prems(1) show ?thesis by simp
  next
    case nojoin
    from nojoin(1) Cons.prems(3) have ne: "var \<noteq> []" by (cases var) auto
    have "\<not> matches var (heap st (tuple record)) (heap st (tuple r))"
    proof
      assume "matches var (heap st (tuple record)) (heap st (tuple r))"
      from join_test_matches [OF this Cons.prems(3)] nojoin(1) ne show False by simp
    qed
    with here
    have ex: "\<exists>r \<in> set (takeWhile (\<lambda>r. \<not> isDuplicated record r) rs).
                matches var (heap st (tuple record)) (heap st (tuple r))" by simp
    from nojoin(2) Cons.prems(1)
    have "scan var record rs (Some False) anyjoin st = Inr (aj, st')" by simp
    from Cons.IH [OF this ex] ne show ?thesis by simp
  next
    case join
    with Cons.prems(1)
    have "scan var record rs (Some True) True (local_join record r st) = Inr (aj, st')"
      by simp
    from scan_frame [OF this] show ?thesis by simp
  qed
qed

text \<open>
  C3, as the code has it. The scan of the partition stops at the first record whose
  timestamp is later than the probing record's (\<^verbatim>\<open>isDuplicated\<close>). When a record that
  matches the probing dictionary on all join variables lies in the partition before any
  such record, \<^verbatim>\<open>probe\<close> makes no call to the remote source, whether it returns or
  raises. In the cache example with join variable \<open>x\<close>, under a clock whose readings do
  not decrease, the first left mapping contacts the source once with the instance \<open>a\<close>,
  the second joins with the cached record, and the output is \<open>{x: a, y: 1, z: Z}\<close>,
  \<open>{x: a, y: 2, z: Z}\<close> and the sentinel, for every hash.
\<close>

theorem probe_local_match_no_contact:
  assumes "\<exists>r \<in> set (takeWhile (\<lambda>r. \<not> isDuplicated record r) (right_table st ! i)).
           matches var (heap st (tuple record)) (heap st (tuple r))"
    and "mono c"
  shows "contacted (final_state (probe env var record i st)) = contacted st
    \<and> map_sum (\<lambda>(e, st). (e, qresults st, contacted st)) (\<lambda>st. (qresults st, contacted st))
        (NLO_execute ((cache_env h)\<lparr>clock := c\<rparr>) [''x'']
           [Tuple [''x'' \<mapsto> ''a'', ''y'' \<mapsto> ''1''], Tuple [''x'' \<mapsto> ''a'', ''y'' \<mapsto> ''2''], EOF]
           NLO_init)
      = Inr ([Tuple [''x'' \<mapsto> ''a'', ''y'' \<mapsto> ''1'', ''z'' \<mapsto> ''Z''],
              Tuple [''x'' \<mapsto> ''a'', ''y'' \<mapsto> ''2'', ''z'' \<mapsto> ''Z''], EOF], [[''a'']])"
proof
  show "contacted (final_state (probe env var record i st)) = contacted st"
  proof (cases "scan var record (right_table st ! i) None False st")
    case (Inl f)
    obtain e st' where f: "f = (e, st')" by (cases f)
    from Inl f scan_failure_frame [of var "record" "right_table st ! i" None False st e st']
    show ?thesis by (simp add: probe_def bind_def final_state_def Let_def)
  next
    case (Inr p)
    obtain aj st' where p: "p = (aj, st')" by (cases p)
    from Inr p have sc: "scan var record (right_table st ! i) None False st = Inr (aj, st')"
      by simp
    from scan_reaches_match [OF sc assms(1)] have aj by simp
    moreover from assms(1) have "length (right_table st ! i) \<noteq> 0" by auto
    ultimately show ?thesis
      using sc scan_frame [OF sc] by (simp add: probe_def bind_def final_state_def Let_def)
  qed
next
  from assms(2) have le: "c (Suc 0) \<le> c (Suc (Suc 0))" by (simp add: mono_def)
  show "map_sum (\<lambda>(e, st). (e, qresults st, contacted st)) (\<lambda>st. (qresults st, contacted st))
        (NLO_execute ((cache_env h)\<lparr>clock := c\<rparr>) [''x'']
           [Tuple [''x'' \<mapsto> ''a'', ''y'' \<mapsto> ''1''], Tuple [''x'' \<mapsto> ''a'', ''y'' \<mapsto> ''2''], EOF]
           NLO_init)
      = Inr ([Tuple [''x'' \<mapsto> ''a'', ''y'' \<mapsto> ''1'', ''z'' \<mapsto> ''Z''],
              Tuple [''x'' \<mapsto> ''a'', ''y'' \<mapsto> ''2'', ''z'' \<mapsto> ''Z''], EOF], [[''a'']])"
    using le
    apply (simp add: run_defs cache_env_def table_simps)
    apply (simp add: cache_out1 cache_out2 fun_upd_twist)
    done
qed

lemma cached_state_facts:
  "right_table cached_state ! 0 = [\<lparr>tuple = 1, ats = 1, dts = 0\<rparr>]"
  "heap cached_state 0 = [''x'' \<mapsto> ''a'', ''y'' \<mapsto> ''1'']"
  "heap cached_state (Suc 0) = [''z'' \<mapsto> ''Z'', ''x'' \<mapsto> ''a'']"
  "contacted cached_state = [[''a'']]"
  by (simp_all add: cached_state_def final_state_def run_defs cache_env_def table_simps
        partition_index_def table_size_def new_table_def insertRecord_def)

theorem probe_local_match_no_contact_witness:
  "list_ex (\<lambda>r. matches [''x''] (heap cached_state (tuple probing_record))
                    (heap cached_state (tuple r)))
        (takeWhile (\<lambda>r. \<not> isDuplicated probing_record r) (right_table cached_state ! 0))
   \<and> mono int
   \<and> contacted (final_state
        (probe (cache_env (\<lambda>_. 0)) [''x''] probing_record 0 cached_state)) = [[''a'']]"
proof -
  have ex: "\<exists>r \<in> set (takeWhile (\<lambda>r. \<not> isDuplicated probing_record r)
                         (right_table cached_state ! 0)).
         matches [''x''] (heap cached_state (tuple probing_record))
           (heap cached_state (tuple r))"
    by (simp add: cached_state_facts matches_def probing_record_def isDuplicated_def)
  have m: "mono int" by (simp add: mono_def)
  from probe_local_match_no_contact [OF ex m, of "cache_env (\<lambda>_. 0)" "\<lambda>_. 0"] ex m
  show ?thesis by (simp add: cached_state_facts list_ex_iff)
qed

text \<open>
  Without the condition on the timestamps the property fails. In the state of the cache
  example after the first left mapping, the partition holds the cached record
  \<open>{x: a, z: Z}\<close> with timestamp 1. A probing record for \<open>{x: a, y: 1}\<close> with timestamp 0
  matches it on \<open>x\<close>, but the scan stops at the cached record before comparing, and the
  source is contacted a second time.
\<close>

theorem probe_local_match_contacts_counterexample:
  "\<not> (list_ex (\<lambda>r. matches [''x''] (heap cached_state (tuple early_record))
                       (heap cached_state (tuple r)))
          (right_table cached_state ! 0)
        \<longrightarrow> contacted (final_state
              (probe (cache_env (\<lambda>_. 0)) [''x''] early_record 0 cached_state))
            = contacted cached_state)"
  by (simp add: cached_state_facts matches_def early_record_def probe_def contact_def
        isDuplicated_def bind_def Let_def cache_env_def final_state_def remote_join_def
        alloc_def update_at_def read_clock_def)

text \<open>
  The same happens in the whole run of the cache example when the clock runs backwards:
  the output is unchanged, but the source is contacted for each of the two left mappings.
\<close>

lemma NLO_execute_backward_clock_contacts_twice:
  "map_sum (\<lambda>(e, st). (e, qresults st, contacted st)) (\<lambda>st. (qresults st, contacted st))
        (NLO_execute ((cache_env h)\<lparr>clock := \<lambda>n. - int n\<rparr>) [''x'']
           [Tuple [''x'' \<mapsto> ''a'', ''y'' \<mapsto> ''1''], Tuple [''x'' \<mapsto> ''a'', ''y'' \<mapsto> ''2''], EOF]
           NLO_init)
      = Inr ([Tuple [''x'' \<mapsto> ''a'', ''y'' \<mapsto> ''1'', ''z'' \<mapsto> ''Z''],
              Tuple [''x'' \<mapsto> ''a'', ''y'' \<mapsto> ''2'', ''z'' \<mapsto> ''Z''], EOF], [[''a''], [''a'']])"
  apply (simp add: run_defs cache_env_def table_simps)
  apply (simp add: cache_out1 cache_out2 fun_upd_twist)
  done

subsection \<open>The record cached by the optional branch\<close>

lemma optional_out: "[''z'' \<mapsto> []] ++ [''x'' \<mapsto> ''k''] = [''x'' \<mapsto> ''k'', ''z'' \<mapsto> []]"
  by (rule ext) simp

text \<open>
  C10. The optional branch appends one record to partition \<open>i\<close> of the right table and
  one address to the results, and the two are the same dictionary: the record's \<open>tuple\<close>
  is the address appended to the results. After the branch that dictionary maps every
  variable bound by the probing dictionary to the value it has there, every other
  attribute of \<^verbatim>\<open>right.atts\<close> to the empty string, and nothing else. In the run of
  the left mappings \<open>{x: k}\<close>, \<open>{x: k}\<close> against a source without mappings the second probe
  compares \<open>x\<close> with the cached record without a missing key, contacts nothing, and the
  output is \<open>{x: k, z: ''}\<close> twice.
\<close>

theorem optional_branch_record_aliases_result:
  assumes "tuple record < next_addr st" and "i < length (right_table st)"
  shows "(\<exists>reg. right_table (optional_branch env record i st) ! i = right_table st ! i @ [reg]
            \<and> results (optional_branch env record i st) = results st @ [tuple reg]
            \<and> (\<forall>v. heap (optional_branch env record i st) (tuple reg) v
                     = (case heap st (tuple record) v of
                          Some a \<Rightarrow> Some a
                        | None \<Rightarrow> if v \<in> set (right_atts env) then Some [] else None))
            \<and> (\<forall>v. heap st (tuple record) v \<noteq> None \<longrightarrow>
                   heap (optional_branch env record i st) (tuple reg) v
                     = heap st (tuple record) v))
    \<and> map_sum (\<lambda>(e, st). (e, qresults st, contacted st)) (\<lambda>st. (qresults st, contacted st))
        (NLO_execute (empty_env h) [''x'']
           [Tuple [''x'' \<mapsto> ''k''], Tuple [''x'' \<mapsto> ''k''], EOF] NLO_init)
      = Inr ([Tuple [''x'' \<mapsto> ''k'', ''z'' \<mapsto> []], Tuple [''x'' \<mapsto> ''k'', ''z'' \<mapsto> []], EOF],
             [[''k'']])"
proof
  let ?reg = "\<lparr>tuple = next_addr st, ats = clock env (ticks st), dts = 0\<rparr>"
  from assms have ne: "tuple record \<noteq> next_addr st" by simp
  have tab: "right_table (optional_branch env record i st) ! i = right_table st ! i @ [?reg]"
    using assms(2)
    by (simp add: optional_branch_def alloc_def update_at_def read_clock_def Let_def
          insertRecord_nth)
  have res: "results (optional_branch env record i st) = results st @ [tuple ?reg]"
    by (simp add: optional_branch_def alloc_def update_at_def read_clock_def Let_def)
  have hp: "heap (optional_branch env record i st) (tuple ?reg)
              = empty_tuple (right_atts env) ++ heap st (tuple record)"
    using ne by (simp add: optional_branch_def alloc_def update_at_def read_clock_def Let_def)
  have content: "\<forall>v. heap (optional_branch env record i st) (tuple ?reg) v
                     = (case heap st (tuple record) v of
                          Some a \<Rightarrow> Some a
                        | None \<Rightarrow> if v \<in> set (right_atts env) then Some [] else None)"
    unfolding hp by (simp add: map_add_def empty_tuple_apply split: option.split)
  have "\<forall>v. heap st (tuple record) v \<noteq> None \<longrightarrow>
          heap (optional_branch env record i st) (tuple ?reg) v = heap st (tuple record) v"
    unfolding hp by (auto simp: map_add_def)
  with tab res content
  show "\<exists>reg. right_table (optional_branch env record i st) ! i = right_table st ! i @ [reg]
            \<and> results (optional_branch env record i st) = results st @ [tuple reg]
            \<and> (\<forall>v. heap (optional_branch env record i st) (tuple reg) v
                     = (case heap st (tuple record) v of
                          Some a \<Rightarrow> Some a
                        | None \<Rightarrow> if v \<in> set (right_atts env) then Some [] else None))
            \<and> (\<forall>v. heap st (tuple record) v \<noteq> None \<longrightarrow>
                   heap (optional_branch env record i st) (tuple reg) v
                     = heap st (tuple record) v)"
    by blast
next
  show "map_sum (\<lambda>(e, st). (e, qresults st, contacted st)) (\<lambda>st. (qresults st, contacted st))
        (NLO_execute (empty_env h) [''x'']
           [Tuple [''x'' \<mapsto> ''k''], Tuple [''x'' \<mapsto> ''k''], EOF] NLO_init)
      = Inr ([Tuple [''x'' \<mapsto> ''k'', ''z'' \<mapsto> []], Tuple [''x'' \<mapsto> ''k'', ''z'' \<mapsto> []], EOF],
             [[''k'']])"
    apply (simp add: run_defs empty_env_def table_simps empty_tuple_def)
    apply (simp add: optional_out fun_upd_twist)
    done
qed

theorem optional_branch_record_aliases_result_witness:
  "tuple \<lparr>tuple = 0, ats = 0, dts = 0\<rparr> < next_addr one_left_state
   \<and> 0 < length (right_table one_left_state)
   \<and> (\<exists>reg. right_table (optional_branch (empty_env (\<lambda>_. 0)) \<lparr>tuple = 0, ats = 0, dts = 0\<rparr> 0
                 one_left_state) ! 0 = [reg]
          \<and> results (optional_branch (empty_env (\<lambda>_. 0)) \<lparr>tuple = 0, ats = 0, dts = 0\<rparr> 0
                 one_left_state) = [tuple reg]
          \<and> heap (optional_branch (empty_env (\<lambda>_. 0)) \<lparr>tuple = 0, ats = 0, dts = 0\<rparr> 0
                 one_left_state) (tuple reg) ''x'' = Some ''k''
          \<and> heap (optional_branch (empty_env (\<lambda>_. 0)) \<lparr>tuple = 0, ats = 0, dts = 0\<rparr> 0
                 one_left_state) (tuple reg) ''z'' = Some []
          \<and> heap (optional_branch (empty_env (\<lambda>_. 0)) \<lparr>tuple = 0, ats = 0, dts = 0\<rparr> 0
                 one_left_state) (tuple reg) ''y'' = None)"
proof -
  let ?st = "optional_branch (empty_env (\<lambda>_. 0)) \<lparr>tuple = 0, ats = 0, dts = 0\<rparr> 0 one_left_state"
  have a: "tuple \<lparr>tuple = 0, ats = 0, dts = 0\<rparr> < next_addr one_left_state"
    by (simp add: one_left_state_def alloc_def NLO_init_def)
  have b: "0 < length (right_table one_left_state)"
    by (simp add: one_left_state_def alloc_def NLO_init_def new_table_def table_size_def)
  have c: "right_table one_left_state ! 0 = []" "results one_left_state = []"
    by (simp_all add: one_left_state_def alloc_def NLO_init_def new_table_def table_size_def)
  have d: "heap one_left_state 0 = [''x'' \<mapsto> ''k'']"
    by (simp add: one_left_state_def alloc_def NLO_init_def)
  have e: "right_atts (empty_env (\<lambda>_. 0)) = [''z'']" by (simp add: empty_env_def)
  from optional_branch_record_aliases_result
         [OF a b, of "empty_env (\<lambda>_. 0)" "\<lambda>_. 0"]
  obtain reg where r:
    "right_table ?st ! 0 = right_table one_left_state ! 0 @ [reg]"
    "results ?st = results one_left_state @ [tuple reg]"
    "\<forall>v. heap ?st (tuple reg) v
         = (case heap one_left_state (tuple \<lparr>tuple = 0, ats = 0, dts = 0\<rparr>) v of
              Some a \<Rightarrow> Some a
            | None \<Rightarrow> if v \<in> set (right_atts (empty_env (\<lambda>_. 0))) then Some [] else None)"
    by blast
  from r(3) have "heap ?st (tuple reg) ''x'' = Some ''k''" "heap ?st (tuple reg) ''z'' = Some []"
    "heap ?st (tuple reg) ''y'' = None"
    by (simp_all add: d e)
  with r(1,2) c have
    "right_table ?st ! 0 = [reg] \<and> results ?st = [tuple reg]
     \<and> heap ?st (tuple reg) ''x'' = Some ''k'' \<and> heap ?st (tuple reg) ''z'' = Some []
     \<and> heap ?st (tuple reg) ''y'' = None"
    by simp
  with a b show ?thesis by blast
qed

subsection \<open>Reading dictionaries that bind the join variables\<close>

text \<open>
  \<^verbatim>\<open>isDuplicated(record1, record2)\<close> holds exactly when the first timestamp is smaller.
\<close>

lemma isDuplicated_iff: "isDuplicated record1 record2 \<longleftrightarrow> ats record1 < ats record2"
  by (auto simp: isDuplicated_def)

lemma bindsD: "binds vars t \<Longrightarrow> v \<in> set vars \<Longrightarrow> \<exists>a. t v = Some a"
  by (auto simp: binds_def list_all_iff)

lemma binds_Cons: "binds (v # vs) t \<longleftrightarrow> t v \<noteq> None \<and> binds vs t"
  by (simp add: binds_def)

lemma att1_of_binds: "binds vars t \<Longrightarrow> att1_of t vars acc = Inr (acc @ key_of vars t)"
  by (induction vars arbitrary: acc) (auto simp: binds_Cons key_of_def)

lemma instances_of_binds: "binds vars t \<Longrightarrow> \<exists>is. instances_of t vars = Inr is"
  by (induction vars) (auto simp: binds_Cons bind_def)

lemma bind_vars_binds:
  "binds vars L \<Longrightarrow>
   bind_vars L vars rt = Inr (\<lambda>v. if v \<in> set vars then L v else rt v)"
proof (induction vars arbitrary: rt)
  case Nil
  then show ?case by simp
next
  case (Cons v vs)
  from Cons.prems obtain a where a: "L v = Some a" and b: "binds vs L"
    by (auto simp: binds_Cons)
  have eq: "(\<lambda>w. if w \<in> set vs then L w else (rt(v \<mapsto> a)) w)
          = (\<lambda>w. if w \<in> set (v # vs) then L w else rt w)"
    by (rule ext) (simp add: a)
  have "bind_vars L (v # vs) rt = bind_vars L vs (rt(v \<mapsto> a))"
    using a by simp
  also have "\<dots> = Inr (\<lambda>w. if w \<in> set vs then L w else (rt(v \<mapsto> a)) w)"
    by (rule Cons.IH [OF b])
  finally show ?case by (simp only: eq)
qed

lemma join_test_binds:
  "binds vars L \<Longrightarrow> binds vars R \<Longrightarrow> vars \<noteq> [] \<or> join \<noteq> None \<Longrightarrow>
   join_test L R vars join = Inr (if vars = [] then join else Some (matches vars L R))"
proof (induction vars arbitrary: join)
  case Nil
  then show ?case by simp
next
  case (Cons v vs)
  from Cons.prems obtain a b where a: "L v = Some a" "R v = Some b"
    and bs: "binds vs L" "binds vs R"
    by (auto simp: binds_Cons)
  have m: "matches (v # vs) L R \<longleftrightarrow> a = b \<and> matches vs L R"
    using a by (auto simp: matches_def)
  show ?case
  proof (cases "a = b")
    case False
    with a m show ?thesis by simp
  next
    case True
    from Cons.IH [OF bs, of "Some True"] True a m show ?thesis
      by (cases vs) (auto simp: matches_def)
  qed
qed

lemma matches_key:
  assumes "matches vars l r"
  shows "key_of vars l = key_of vars r"
proof -
  have "map (\<lambda>v. the (l v)) vars = map (\<lambda>v. the (r v)) vars"
  proof (rule map_cong [OF refl])
    fix v assume "v \<in> set vars"
    with assms show "the (l v) = the (r v)" unfolding matches_def by metis
  qed
  then show ?thesis by (simp only: key_of_def)
qed

lemma matches_binds: "matches vars l r \<Longrightarrow> binds vars l \<and> binds vars r"
  unfolding matches_def binds_def list_all_iff by metis

lemma matches_trans: "matches vars a b \<Longrightarrow> matches vars c b \<Longrightarrow> matches vars a c"
  unfolding matches_def by metis

lemma matches_trans2: "matches vars a b \<Longrightarrow> matches vars a c \<Longrightarrow> matches vars c b"
  unfolding matches_def by metis

subsection \<open>What a scan of a partition appends\<close>

text \<open>
  The scan visits the records up to the first one it takes for a duplicate. For a
  probing dictionary and partition dictionaries that bind the join variables it
  returns; it appends one new dictionary per visited record that matches, in order,
  each the probing dictionary updated with the record's; and it reports a join exactly
  when a visited record matches.
\<close>

lemma scan_result:
  assumes "binds var (heap st (tuple record))" and "var \<noteq> []"
    and "tuple record < next_addr st"
    and "list_all (\<lambda>r. tuple r < next_addr st \<and> binds var (heap st (tuple r))) rs"
  shows "\<exists>st' new.
      scan var record rs join anyjoin st
        = Inr (anyjoin \<or> list_ex (\<lambda>r. matches var (heap st (tuple record)) (heap st (tuple r)))
                          (takeWhile (\<lambda>r. \<not> isDuplicated record r) rs), st')
    \<and> results st' = results st @ new
    \<and> list_all2 (\<lambda>a r. heap st' a = heap st (tuple record) ++ heap st (tuple r)) new
        (filter (\<lambda>r. matches var (heap st (tuple record)) (heap st (tuple r)))
           (takeWhile (\<lambda>r. \<not> isDuplicated record r) rs))
    \<and> list_all (\<lambda>a. next_addr st \<le> a \<and> a < next_addr st') new
    \<and> next_addr st \<le> next_addr st'
    \<and> (\<forall>a < next_addr st. heap st' a = heap st a)
    \<and> contacted st' = contacted st \<and> right_table st' = right_table st
    \<and> left_table st' = left_table st \<and> ticks st' = ticks st \<and> qresults st' = qresults st"
  using assms
proof (induction rs arbitrary: st join anyjoin)
  case Nil
  show ?case by (rule exI [of _ st], rule exI [of _ "[]"]) simp
next
  case (Cons r rs)
  let ?L = "heap st (tuple record)"
  let ?M = "\<lambda>r. matches var ?L (heap st (tuple r))"
  let ?tw = "takeWhile (\<lambda>r. \<not> isDuplicated record r)"
  from Cons.prems(4) have r: "tuple r < next_addr st" "binds var (heap st (tuple r))"
    and rs: "list_all (\<lambda>r. tuple r < next_addr st \<and> binds var (heap st (tuple r))) rs"
    by simp_all
  show ?case
  proof (cases "isDuplicated record r")
    case True
    then show ?thesis by (intro exI [of _ st] exI [of _ "[]"]) simp
  next
    case nd: False
    have jt: "join_test ?L (heap st (tuple r)) var join = Inr (Some (?M r))"
      using join_test_binds [OF Cons.prems(1) r(2), of join] Cons.prems(2) by simp
    show ?thesis
    proof (cases "?M r")
      case False
      with jt nd have sc: "scan var record (r # rs) join anyjoin st
                             = scan var record rs (Some False) anyjoin st" by simp
      from Cons.IH [OF Cons.prems(1,2,3) rs, of "Some False" anyjoin]
      obtain st' new where
        "scan var record rs (Some False) anyjoin st = Inr (anyjoin \<or> list_ex ?M (?tw rs), st')"
        "results st' = results st @ new"
        "list_all2 (\<lambda>a r. heap st' a = ?L ++ heap st (tuple r)) new (filter ?M (?tw rs))"
        "list_all (\<lambda>a. next_addr st \<le> a \<and> a < next_addr st') new"
        "next_addr st \<le> next_addr st'"
        "\<forall>a < next_addr st. heap st' a = heap st a"
        "contacted st' = contacted st \<and> right_table st' = right_table st
          \<and> left_table st' = left_table st \<and> ticks st' = ticks st \<and> qresults st' = qresults st"
        by blast
      with sc False nd show ?thesis
        by (intro exI [of _ st'] exI [of _ new]) simp
    next
      case True
      define st1 where "st1 = local_join record r st"
      from True jt nd have sc: "scan var record (r # rs) join anyjoin st
                             = scan var record rs (Some True) True st1"
        by (simp add: st1_def)
      have h1: "heap st1 a = heap st a" if "a < next_addr st" for a
        using that by (simp add: st1_def local_join_frame)
      have n1: "next_addr st1 = Suc (next_addr st)"
        by (simp add: st1_def local_join_frame)
      have new1: "heap st1 (next_addr st) = ?L ++ heap st (tuple r)"
        using r(1) by (simp add: st1_def local_join_heap_new)
      have L1: "heap st1 (tuple record) = ?L" using Cons.prems(3) by (rule h1)
      have p1: "binds var (heap st1 (tuple record))" using Cons.prems(1) L1 by simp
      have p3: "tuple record < next_addr st1" using Cons.prems(3) n1 by simp
      have p4: "list_all (\<lambda>r. tuple r < next_addr st1 \<and> binds var (heap st1 (tuple r))) rs"
        using rs by (auto simp: list_all_iff n1 h1)
      have hr: "heap st1 (tuple x) = heap st (tuple x)" if "x \<in> set rs" for x
        using that rs by (auto simp: list_all_iff h1)
      have hr': "heap st1 (tuple x) = heap st (tuple x)" if "x \<in> set (?tw rs)" for x
        using that hr set_takeWhileD by fastforce
      from Cons.IH [OF p1 Cons.prems(2) p3 p4, of "Some True" True]
      obtain st' new where
        a: "scan var record rs (Some True) True st1 = Inr (True, st')"
        and b: "results st' = results st1 @ new"
        and c: "list_all2 (\<lambda>a r. heap st' a = heap st1 (tuple record) ++ heap st1 (tuple r))
                  new (filter (\<lambda>r. matches var (heap st1 (tuple record)) (heap st1 (tuple r)))
                         (?tw rs))"
        and d: "list_all (\<lambda>a. next_addr st1 \<le> a \<and> a < next_addr st') new"
        and e: "next_addr st1 \<le> next_addr st'"
        and f: "\<forall>a < next_addr st1. heap st' a = heap st1 a"
        and g: "contacted st' = contacted st1 \<and> right_table st' = right_table st1
          \<and> left_table st' = left_table st1 \<and> ticks st' = ticks st1
          \<and> qresults st' = qresults st1"
        by auto
      have flt: "filter (\<lambda>r. matches var (heap st1 (tuple record)) (heap st1 (tuple r))) (?tw rs)
                   = filter ?M (?tw rs)"
        by (rule filter_cong [OF refl]) (simp add: L1 hr')
      have c': "list_all2 (\<lambda>a r. heap st' a = ?L ++ heap st (tuple r)) new (filter ?M (?tw rs))"
        using c unfolding flt
        by (rule list.rel_mono_strong) (simp add: L1 hr')
      have first: "heap st' (next_addr st) = ?L ++ heap st (tuple r)"
        using f n1 new1 by simp
      have "scan var record (r # rs) join anyjoin st
              = Inr (anyjoin \<or> list_ex ?M (?tw (r # rs)), st')"
        using sc a nd True by simp
      moreover have "results st' = results st @ (next_addr st # new)"
        using b by (simp add: st1_def local_join_frame)
      moreover have "list_all2 (\<lambda>a r. heap st' a = ?L ++ heap st (tuple r))
                       (next_addr st # new) (filter ?M (?tw (r # rs)))"
        using c' first nd True by simp
      moreover have "list_all (\<lambda>a. next_addr st \<le> a \<and> a < next_addr st') (next_addr st # new)"
        using d e n1 by (auto simp: list_all_iff)
      moreover have "next_addr st \<le> next_addr st'" using e n1 by simp
      moreover have "\<forall>a < next_addr st. heap st' a = heap st a"
        using f n1 h1 by simp
      moreover have "contacted st' = contacted st \<and> right_table st' = right_table st
          \<and> left_table st' = left_table st \<and> ticks st' = ticks st \<and> qresults st' = qresults st"
        using g by (simp add: st1_def local_join_frame)
      ultimately show ?thesis by blast
    qed
  qed
qed

subsection \<open>What a contact of the source appends\<close>

lemma split_at_EOF: "EOF \<in> set q \<Longrightarrow> \<exists>rts rest. q = map Tuple rts @ EOF # rest"
proof (induction q)
  case Nil
  then show ?case by simp
next
  case (Cons m q)
  show ?case
  proof (cases m)
    case EOF
    then have "m # q = map Tuple [] @ EOF # q" by simp
    then show ?thesis by blast
  next
    case (Tuple t)
    with Cons.prems have "EOF \<in> set q" by simp
    from Cons.IH [OF this] obtain rts rest where "q = map Tuple rts @ EOF # rest" by blast
    with Tuple have "m # q = map Tuple (t # rts) @ EOF # rest" by simp
    then show ?thesis by blast
  qed
qed

lemma combines_remote:
  assumes "binds var L"
  shows "combines L (rt ++ L) (\<lambda>v. if v \<in> set var then L v else rt v)"
proof -
  have b: "L v \<noteq> None" if "v \<in> set var" for v
    using assms that by (auto simp: binds_def list_all_iff)
  have "dom (rt ++ L) = dom L \<union> dom (\<lambda>v. if v \<in> set var then L v else rt v)"
    using b by (auto simp: dom_def split: if_splits)
  moreover have "(rt ++ L) v = L v \<or> (rt ++ L) v = (if v \<in> set var then L v else rt v)" for v
    using b [of v] by (cases "L v") (auto simp: map_add_def)
  ultimately show ?thesis unfolding combines_def by blast
qed

lemma matches_bound:
  "binds var L \<Longrightarrow> matches var L (\<lambda>v. if v \<in> set var then L v else rt v)"
  by (simp add: matches_def binds_def list_all_iff)

lemma combines_same: "combines L (e ++ L) (e ++ L)"
  by (auto simp: combines_def)

lemma matches_padded: "binds var L \<Longrightarrow> matches var L (e ++ L)"
  by (auto simp: matches_def binds_def list_all_iff map_add_def)

lemma remote_join_frame:
  assumes "tuple record < next_addr st"
  shows "next_addr (remote_join env record i rt bound st) = Suc (Suc (next_addr st))"
    "a < next_addr st \<Longrightarrow> heap (remote_join env record i rt bound st) a = heap st a"
    "heap (remote_join env record i rt bound st) (next_addr st) = bound"
    "heap (remote_join env record i rt bound st) (Suc (next_addr st))
       = rt ++ heap st (tuple record)"
    "right_table (remote_join env record i rt bound st)
       = insertRecord i \<lparr>tuple = next_addr st, ats = clock env (ticks st), dts = 0\<rparr>
           (right_table st)"
    "results (remote_join env record i rt bound st) = results st @ [Suc (next_addr st)]"
    "ticks (remote_join env record i rt bound st) = Suc (ticks st)"
    "contacted (remote_join env record i rt bound st) = contacted st"
    "left_table (remote_join env record i rt bound st) = left_table st"
    "qresults (remote_join env record i rt bound st) = qresults st"
  using assms
  by (simp_all add: remote_join_def alloc_def update_at_def read_clock_def Let_def)

lemma optional_branch_frame:
  assumes "tuple record < next_addr st"
  shows "next_addr (optional_branch env record i st) = Suc (next_addr st)"
    "a < next_addr st \<Longrightarrow> heap (optional_branch env record i st) a = heap st a"
    "heap (optional_branch env record i st) (next_addr st)
       = empty_tuple (right_atts env) ++ heap st (tuple record)"
    "right_table (optional_branch env record i st)
       = insertRecord i \<lparr>tuple = next_addr st, ats = clock env (ticks st), dts = 0\<rparr>
           (right_table st)"
    "results (optional_branch env record i st) = results st @ [next_addr st]"
    "ticks (optional_branch env record i st) = Suc (ticks st)"
    "contacted (optional_branch env record i st) = contacted st"
    "left_table (optional_branch env record i st) = left_table st"
    "qresults (optional_branch env record i st) = qresults st"
  using assms
  by (simp_all add: optional_branch_def alloc_def update_at_def read_clock_def Let_def)

lemma grows_refl: "grows env var i L st st [] []"
  by (simp add: grows_def)

lemma optional_branch_grows:
  assumes "binds var (heap st (tuple record))" and "tuple record < next_addr st"
  shows "grows env var i (heap st (tuple record)) st (optional_branch env record i st)
           [next_addr st] [\<lparr>tuple = next_addr st, ats = clock env (ticks st), dts = 0\<rparr>]"
  unfolding grows_def
  using assms optional_branch_frame [OF assms(2), where env = env and i = i]
  by (auto simp: insertRecord_def combines_same matches_padded intro: exI [of _ "ticks st"])

lemma receive_result:
  assumes "binds var (heap st (tuple record))" and "tuple record < next_addr st"
  shows "\<exists>st' new regs.
     receive env var record i (map Tuple rts @ EOF # rest) st = Inr st'
     \<and> grows env var i (heap st (tuple record)) st st' new regs
     \<and> length regs = length rts \<and> contacted st' = contacted st"
  using assms
proof (induction rts arbitrary: st)
  case Nil
  show ?case by (intro exI [of _ st] exI [of _ "[]"]) (simp add: grows_refl)
next
  case (Cons rt rts)
  let ?L = "heap st (tuple record)"
  let ?bound = "\<lambda>v. if v \<in> set var then ?L v else rt v"
  let ?reg = "\<lparr>tuple = next_addr st, ats = clock env (ticks st), dts = 0\<rparr>"
  define st1 where "st1 = remote_join env record i rt ?bound st"
  note fr = remote_join_frame [OF Cons.prems(2), where env = env and i = i and rt = rt
    and bound = ?bound, folded st1_def]
  have L1: "heap st1 (tuple record) = ?L" using Cons.prems(2) by (rule fr(2))
  have step: "receive env var record i (map Tuple (rt # rts) @ EOF # rest) st
                = receive env var record i (map Tuple rts @ EOF # rest) st1"
    using bind_vars_binds [OF Cons.prems(1), of rt] by (simp add: st1_def)
  have p1: "binds var (heap st1 (tuple record))" using Cons.prems(1) L1 by simp
  have p2: "tuple record < next_addr st1" using Cons.prems(2) fr(1) by simp
  from Cons.IH [OF p1 p2] obtain st' new regs where
    rc: "receive env var record i (map Tuple rts @ EOF # rest) st1 = Inr st'"
    and gr: "grows env var i (heap st1 (tuple record)) st1 st' new regs"
    and len: "length regs = length rts" and ct: "contacted st' = contacted st1"
    by blast
  from gr have g:
    "results st' = results st1 @ new"
    "right_table st' = (right_table st1)[i := right_table st1 ! i @ regs]"
    "list_all2 (\<lambda>a reg. combines ?L (heap st' a) (heap st' (tuple reg))) new regs"
    "list_all (\<lambda>reg. next_addr st1 \<le> tuple reg \<and> tuple reg < next_addr st'
                     \<and> matches var ?L (heap st' (tuple reg))
                     \<and> (\<exists>k. ticks st1 \<le> k \<and> k < ticks st' \<and> ats reg = clock env k)) regs"
    "list_all (\<lambda>a. next_addr st1 \<le> a \<and> a < next_addr st') new"
    "next_addr st1 \<le> next_addr st'"
    "\<forall>a < next_addr st1. heap st' a = heap st1 a"
    "ticks st1 \<le> ticks st'" "left_table st' = left_table st1" "qresults st' = qresults st1"
    unfolding grows_def L1 by simp_all
  have h0: "heap st' (next_addr st) = ?bound" using g(7) fr(1,3) by simp
  have h1: "heap st' (Suc (next_addr st)) = rt ++ ?L" using g(7) fr(1,4) by simp
  have "grows env var i ?L st st' (Suc (next_addr st) # new) (?reg # regs)"
    unfolding grows_def
  proof (intro conjI)
    show "results st' = results st @ Suc (next_addr st) # new"
      using g(1) fr(6) by simp
    show "right_table st' = (right_table st)[i := right_table st ! i @ ?reg # regs]"
    proof (cases "i < length (right_table st)")
      case True
      then show ?thesis using g(2) fr(5) by (simp add: insertRecord_def)
    next
      case False
      then have "length (right_table st) \<le> i" by simp
      then show ?thesis using g(2) fr(5) by (simp add: insertRecord_def list_update_beyond)
    qed
    show "list_all2 (\<lambda>a reg. combines ?L (heap st' a) (heap st' (tuple reg)))
            (Suc (next_addr st) # new) (?reg # regs)"
      using g(3) h0 h1 combines_remote [OF Cons.prems(1), of rt] by simp
    show "list_all (\<lambda>reg. next_addr st \<le> tuple reg \<and> tuple reg < next_addr st'
                     \<and> matches var ?L (heap st' (tuple reg))
                     \<and> (\<exists>k. ticks st \<le> k \<and> k < ticks st' \<and> ats reg = clock env k))
            (?reg # regs)"
    proof -
      have "\<exists>k. ticks st \<le> k \<and> k < ticks st' \<and> ats ?reg = clock env k"
        using g(8) fr(7) by (intro exI [of _ "ticks st"]) simp
      moreover have "matches var ?L (heap st' (tuple ?reg))"
        using h0 matches_bound [OF Cons.prems(1), of rt] by simp
      moreover have "tuple ?reg < next_addr st'" using g(6) fr(1) by simp
      moreover have "list_all (\<lambda>reg. next_addr st \<le> tuple reg \<and> tuple reg < next_addr st'
                     \<and> matches var ?L (heap st' (tuple reg))
                     \<and> (\<exists>k. ticks st \<le> k \<and> k < ticks st' \<and> ats reg = clock env k)) regs"
        using g(4) unfolding list_all_iff fr(1) fr(7)
        by (metis Suc_leD)
      ultimately show ?thesis by simp
    qed
    show "list_all (\<lambda>a. next_addr st \<le> a \<and> a < next_addr st') (Suc (next_addr st) # new)"
      using g(5,6) fr(1) by (auto simp: list_all_iff)
    show "next_addr st \<le> next_addr st'" using g(6) fr(1) by simp
    show "\<forall>a < next_addr st. heap st' a = heap st a" using g(7) fr(1,2) by simp
    show "ticks st \<le> ticks st'" using g(8) fr(7) by simp
    show "left_table st' = left_table st" using g(9) fr(9) by simp
    show "qresults st' = qresults st" using g(10) fr(10) by simp
  qed
  with step rc len ct fr(8) show ?case
    by (intro exI [of _ st'] exI [of _ "Suc (next_addr st) # new"] exI [of _ "?reg # regs"])
       simp
qed

lemma combines_local: "combines l (l ++ r) r"
  by (auto simp: combines_def map_add_def split: option.splits)

lemma grows_contacted:
  "grows env var i L (st\<lparr>contacted := c\<rparr>) st' new regs = grows env var i L st st' new regs"
  by (simp add: grows_def)

lemma contact_result:
  assumes "binds var (heap st (tuple pr))" and "tuple pr < next_addr st"
    and "\<forall>vs ins. EOF \<in> set (right_execute env vs ins)"
  shows "\<exists>st' new regs ins.
     contact env var pr i st = Inr st'
     \<and> grows env var i (heap st (tuple pr)) st st' new regs
     \<and> regs \<noteq> [] \<and> contacted st' = contacted st @ [ins]"
proof -
  from instances_of_binds [OF assms(1)] obtain ins
    where ins: "instances_of (heap st (tuple pr)) var = Inr ins" by blast
  define st1 where "st1 = st\<lparr>contacted := contacted st @ [ins]\<rparr>"
  have b1: "binds var (heap st1 (tuple pr))" and a1: "tuple pr < next_addr st1"
    and L1: "heap st1 (tuple pr) = heap st (tuple pr)"
    using assms(1,2) by (simp_all add: st1_def)
  from assms(3) have "EOF \<in> set (right_execute env var ins)" by blast
  from split_at_EOF [OF this] obtain rts rest
    where q: "right_execute env var ins = map Tuple rts @ EOF # rest" by blast
  show ?thesis
  proof (cases rts)
    case Nil
    with q ins have c: "contact env var pr i st = Inr (optional_branch env pr i st1)"
      by (simp add: contact_def st1_def Let_def)
    from optional_branch_grows [OF b1 a1, of env i]
    have "grows env var i (heap st (tuple pr)) st (optional_branch env pr i st1)
            [next_addr st1] [\<lparr>tuple = next_addr st1, ats = clock env (ticks st1), dts = 0\<rparr>]"
      unfolding L1 unfolding st1_def grows_contacted .
    moreover have "contacted (optional_branch env pr i st1) = contacted st @ [ins]"
      using optional_branch_frame(7) [OF a1, of env i] by (simp add: st1_def)
    ultimately show ?thesis using c by blast
  next
    case (Cons rt rts')
    with q ins have c: "contact env var pr i st
                         = receive env var pr i (map Tuple rts @ EOF # rest) st1"
      by (simp add: contact_def st1_def Let_def)
    from receive_result [OF b1 a1, of env i rts rest] obtain st' new regs where
      r: "receive env var pr i (map Tuple rts @ EOF # rest) st1 = Inr st'"
      and g: "grows env var i (heap st1 (tuple pr)) st1 st' new regs"
      and l: "length regs = length rts" and ct: "contacted st' = contacted st1"
      by blast
    from g have "grows env var i (heap st (tuple pr)) st st' new regs"
      unfolding L1 unfolding st1_def grows_contacted .
    moreover from l Cons have "regs \<noteq> []" by auto
    moreover from ct have "contacted st' = contacted st @ [ins]" by (simp add: st1_def)
    ultimately show ?thesis using c r by auto
  qed
qed

subsection \<open>The invariant of the right table\<close>

text \<open>
  Dictionaries below \<open>next_addr\<close> are never changed by a later step, so what a record
  matched it keeps matching, and a record that was well placed stays so. Under a clock
  whose readings never decrease, a record stamped earlier is never taken for a duplicate
  by a later probe.
\<close>

lemma filter_matches_stable:
  assumes "\<forall>a < n. heap st' a = heap st a" and "list_all (\<lambda>r. tuple r < n) rs"
  shows "filter (\<lambda>r. matches vars l (heap st' (tuple r))) rs
           = filter (\<lambda>r. matches vars l (heap st (tuple r))) rs"
  using assms by (intro filter_cong refl) (simp add: list_all_iff)

lemma record_ok_mono:
  assumes "record_ok env vars st j r" and "next_addr st \<le> next_addr st'"
    and "\<forall>a < next_addr st. heap st' a = heap st a" and "ticks st \<le> ticks st'"
  shows "record_ok env vars st' j r"
proof -
  from assms(1) have a: "tuple r < next_addr st" by (simp add: record_ok_def)
  with assms(3) have h: "heap st' (tuple r) = heap st (tuple r)" by simp
  from assms(1) obtain k where "k < ticks st" "ats r = clock env k"
    by (auto simp: record_ok_def)
  with assms(4) have "\<exists>k < ticks st'. ats r = clock env k" by (intro exI [of _ k]) simp
  with assms(1,2) a h show ?thesis by (simp add: record_ok_def)
qed

lemma not_duplicated_mono:
  assumes "mono (clock env)" and "\<exists>k < Suc n. ats r = clock env k" and "ats pr = clock env n"
  shows "\<not> isDuplicated pr r"
proof -
  from assms(2) obtain k where "k < Suc n" and k2: "ats r = clock env k" by blast
  then have "k \<le> n" by simp
  note k = this k2
  from assms(1) k(1) have "clock env k \<le> clock env n" by (rule monoD)
  with k(2) assms(3) show ?thesis by (simp add: isDuplicated_def)
qed

lemma inv_records:
  "inv env vars st \<Longrightarrow> j < table_size \<Longrightarrow> list_all (record_ok env vars st j) (right_table st ! j)"
  by (simp add: inv_def)

lemma inv_length: "inv env vars st \<Longrightarrow> length (right_table st) = table_size"
  by (simp add: inv_def)

lemma inv_results: "inv env vars st \<Longrightarrow> list_all (\<lambda>a. a < next_addr st) (results st)"
  by (simp add: inv_def)

lemma matches_chain: "matches vars a b \<Longrightarrow> matches vars b c \<Longrightarrow> matches vars a c"
  unfolding matches_def by metis

lemma matches_sym: "matches vars a b \<Longrightarrow> matches vars b a"
  unfolding matches_def by metis

lemma inv_frame:
  assumes "inv env vars st" and "right_table st' = right_table st"
    and "results st' = results st @ new" and "list_all (\<lambda>a. a < next_addr st') new"
    and "next_addr st \<le> next_addr st'" and "\<forall>a < next_addr st. heap st' a = heap st a"
    and "ticks st \<le> ticks st'"
  shows "inv env vars st'"
  unfolding inv_def
proof (intro conjI allI impI)
  show "length (right_table st') = table_size" using assms(1,2) by (simp add: inv_def)
next
  fix j assume "j < table_size"
  with assms(1) have "list_all (record_ok env vars st j) (right_table st ! j)"
    by (rule inv_records)
  then show "list_all (record_ok env vars st' j) (right_table st' ! j)"
    unfolding assms(2) list_all_iff
    using record_ok_mono [OF _ assms(5,6,7)] by blast
next
  from inv_results [OF assms(1)] assms(5)
  have "list_all (\<lambda>a. a < next_addr st') (results st)" by (auto simp: list_all_iff)
  with assms(3,4) show "list_all (\<lambda>a. a < next_addr st') (results st')" by simp
qed

lemma grows_facts:
  assumes "grows env var i L st st' new regs"
  shows "results st' = results st @ new"
    "right_table st' = (right_table st)[i := right_table st ! i @ regs]"
    "list_all2 (\<lambda>a reg. combines L (heap st' a) (heap st' (tuple reg))) new regs"
    "list_all (\<lambda>reg. next_addr st \<le> tuple reg \<and> tuple reg < next_addr st'
                     \<and> matches var L (heap st' (tuple reg))
                     \<and> (\<exists>k. ticks st \<le> k \<and> k < ticks st' \<and> ats reg = clock env k)) regs"
    "list_all (\<lambda>a. next_addr st \<le> a \<and> a < next_addr st') new"
    "next_addr st \<le> next_addr st'"
    "\<forall>a < next_addr st. heap st' a = heap st a"
    "ticks st \<le> ticks st'" "left_table st' = left_table st" "qresults st' = qresults st"
  using assms unfolding grows_def by simp_all

lemma new_record_ok:
  assumes "tuple reg < next_addr st'" and "matches vars t (heap st' (tuple reg))"
    and "\<exists>k. n \<le> k \<and> k < ticks st' \<and> ats reg = clock env k"
  shows "record_ok env vars st' (partition_index env (key_of vars t)) reg"
proof -
  from matches_binds [OF assms(2)] have "binds vars (heap st' (tuple reg))" by simp
  moreover from matches_key [OF assms(2)]
  have "partition_index env (key_of vars (heap st' (tuple reg)))
          = partition_index env (key_of vars t)" by simp
  moreover from assms(3) have "\<exists>k < ticks st'. ats reg = clock env k" by blast
  ultimately show ?thesis using assms(1) by (simp add: record_ok_def)
qed

lemma inv_grows:
  assumes "inv env vars st" and "grows env vars i t st st' new regs"
    and "i = partition_index env (key_of vars t)"
  shows "inv env vars st'"
  unfolding inv_def
proof (intro conjI allI impI)
  note g = grows_facts [OF assms(2)]
  show "length (right_table st') = table_size"
    using assms(1) g(2) by (simp add: inv_def)
  show "list_all (\<lambda>a. a < next_addr st') (results st')"
    using inv_results [OF assms(1)] g(1,5,6) by (auto simp: list_all_iff)
  fix j assume j: "j < table_size"
  have il: "i < length (right_table st)"
    using assms(1,3) by (simp add: inv_def partition_index_less)
  from inv_records [OF assms(1) j]
  have old: "list_all (record_ok env vars st' j) (right_table st ! j)"
    unfolding list_all_iff using record_ok_mono [OF _ g(6,7,8)] by blast
  show "list_all (record_ok env vars st' j) (right_table st' ! j)"
  proof (cases "j = i")
    case False
    with g(2) old show ?thesis by simp
  next
    case True
    have "list_all (record_ok env vars st' i) regs"
      unfolding list_all_iff
    proof
      fix reg assume "reg \<in> set regs"
      with g(4) have a: "tuple reg < next_addr st'" "matches vars t (heap st' (tuple reg))"
        "\<exists>k. ticks st \<le> k \<and> k < ticks st' \<and> ats reg = clock env k"
        by (simp_all add: list_all_iff)
      from new_record_ok [OF a] show "record_ok env vars st' i reg" by (simp add: assms(3))
    qed
    with True g(2) old il show ?thesis by simp
  qed
qed

lemma matching_frame:
  assumes "inv env vars st" and "right_table st' = right_table st"
    and "\<forall>a < next_addr st. heap st' a = heap st a"
  shows "matching env vars st' l = matching env vars st l"
proof -
  let ?j = "partition_index env (key_of vars l)"
  from inv_records [OF assms(1) partition_index_less [of env "key_of vars l"]]
  have "list_all (\<lambda>r. tuple r < next_addr st) (right_table st ! ?j)"
    by (simp add: list_all_iff record_ok_def)
  from filter_matches_stable [OF assms(3) this] assms(2)
  show ?thesis by (simp add: matching_def)
qed

lemma matching_grows:
  assumes "inv env vars st" and "grows env vars i t st st' new regs"
    and "i = partition_index env (key_of vars t)" and "matching env vars st t = []"
  shows "matching env vars st' t = regs"
    and "matching env vars st l \<noteq> [] \<Longrightarrow> matching env vars st' l = matching env vars st l"
proof -
  note g = grows_facts [OF assms(2)]
  have il: "i < length (right_table st)"
    using assms(1,3) by (simp add: inv_def partition_index_less)
  have old: "filter (\<lambda>r. matches vars x (heap st' (tuple r))) (right_table st ! j)
               = filter (\<lambda>r. matches vars x (heap st (tuple r))) (right_table st ! j)"
    if "j < table_size" for x j
  proof -
    from inv_records [OF assms(1) that]
    have "list_all (\<lambda>r. tuple r < next_addr st) (right_table st ! j)"
      by (simp add: list_all_iff record_ok_def)
    from filter_matches_stable [OF g(7) this] show ?thesis .
  qed
  have regs_t: "filter (\<lambda>r. matches vars t (heap st' (tuple r))) regs = regs"
    using g(4) by (simp add: list_all_iff)
  have "matching env vars st' t
          = filter (\<lambda>r. matches vars t (heap st' (tuple r))) (right_table st ! i @ regs)"
    using g(2) il by (simp add: matching_def assms(3))
  also have "\<dots> = filter (\<lambda>r. matches vars t (heap st (tuple r))) (right_table st ! i) @ regs"
    using old [of i t] il assms(1) regs_t by (simp add: inv_def)
  also have "\<dots> = regs" using assms(4) by (simp add: matching_def assms(3))
  finally show "matching env vars st' t = regs" .
  assume nonempty: "matching env vars st l \<noteq> []"
  let ?j = "partition_index env (key_of vars l)"
  have jl: "?j < table_size" by (rule partition_index_less)
  show "matching env vars st' l = matching env vars st l"
  proof (cases "?j = i")
    case False
    with g(2) old [OF jl, of l] show ?thesis by (simp add: matching_def)
  next
    case True
    have none: "filter (\<lambda>r. matches vars l (heap st' (tuple r))) regs = []"
    proof (rule ccontr)
      assume "filter (\<lambda>r. matches vars l (heap st' (tuple r))) regs \<noteq> []"
      then obtain reg where reg: "reg \<in> set regs" "matches vars l (heap st' (tuple reg))"
        by (auto simp: filter_empty_conv)
      from reg(1) g(4) have "matches vars t (heap st' (tuple reg))"
        by (simp add: list_all_iff)
      from matches_trans [OF this reg(2)] have tl: "matches vars t l" .
      from nonempty obtain r0 where r0: "r0 \<in> set (right_table st ! ?j)"
        "matches vars l (heap st (tuple r0))"
        by (auto simp: matching_def filter_empty_conv)
      from matches_chain [OF tl r0(2)] r0(1) True assms(3)
      have "matching env vars st t \<noteq> []"
        by (auto simp: matching_def filter_empty_conv)
      with assms(4) show False by simp
    qed
    have "matching env vars st' l
            = filter (\<lambda>r. matches vars l (heap st' (tuple r))) (right_table st ! i @ regs)"
      using g(2) il True by (simp add: matching_def)
    also have "\<dots> = filter (\<lambda>r. matches vars l (heap st (tuple r))) (right_table st ! i)"
      using old [of i l] il assms(1) none by (simp add: inv_def)
    finally show ?thesis using True by (simp add: matching_def)
  qed
qed

subsection \<open>One probe\<close>

text \<open>
  A probe in a state that satisfies the invariant returns and appends at least one
  result. Either a visited record matches and nothing is added to the table, or none
  does and the records received from the source (or the padded one) are added, all of
  which match the probing mapping. Under a non-decreasing clock the scan visits the
  whole partition, the appended results pair off with the records that match the
  mapping, and the records matching any other mapping that already had one are the
  same as before.
\<close>

lemma probe_step:
  assumes inv: "inv env vars st" and ne: "vars \<noteq> []"
    and L: "heap st (tuple pr) = t" and bt: "binds vars t" and apr: "tuple pr < next_addr st"
    and i: "i = partition_index env (key_of vars t)"
    and remote: "\<forall>vs ins. EOF \<in> set (right_execute env vs ins)"
    and stamp: "ats pr = clock env n" "ticks st \<le> Suc n"
  shows "\<exists>st' new. probe env vars pr i st = Inr st' \<and> inv env vars st'
     \<and> results st' = results st @ new \<and> new \<noteq> []
     \<and> next_addr st \<le> next_addr st' \<and> (\<forall>a < next_addr st. heap st' a = heap st a)
     \<and> qresults st' = qresults st \<and> left_table st' = left_table st
     \<and> ticks st \<le> ticks st'
     \<and> (mono (clock env) \<longrightarrow>
          list_all2 (\<lambda>a r. combines t (heap st' a) (heap st' (tuple r))) new
            (matching env vars st' t)
          \<and> (\<forall>l. matching env vars st l \<noteq> [] \<longrightarrow>
                 matching env vars st' l = matching env vars st l))"
proof -
  let ?P = "right_table st ! i"
  let ?M = "\<lambda>r. matches vars t (heap st (tuple r))"
  let ?vis = "takeWhile (\<lambda>r. \<not> isDuplicated pr r) ?P"
  have il: "i < table_size" by (simp add: i partition_index_less)
  have recs: "list_all (record_ok env vars st i) ?P" using inv il by (rule inv_records)
  have Pok: "list_all (\<lambda>r. tuple r < next_addr st \<and> binds vars (heap st (tuple r))) ?P"
    using recs by (simp add: list_all_iff record_ok_def)
  have bL: "binds vars (heap st (tuple pr))" using L bt by simp
  from scan_result [OF bL ne apr Pok, of None False]
  obtain st4 new1 where
    sc: "scan vars pr ?P None False st = Inr (list_ex ?M ?vis, st4)"
    and r4: "results st4 = results st @ new1"
    and la: "list_all2 (\<lambda>a r. heap st4 a = t ++ heap st (tuple r)) new1 (filter ?M ?vis)"
    and rng: "list_all (\<lambda>a. next_addr st \<le> a \<and> a < next_addr st4) new1"
    and n4: "next_addr st \<le> next_addr st4"
    and h4: "\<forall>a < next_addr st. heap st4 a = heap st a"
    and f4: "contacted st4 = contacted st" "right_table st4 = right_table st"
      "left_table st4 = left_table st" "ticks st4 = ticks st" "qresults st4 = qresults st"
    unfolding L by auto
  have rng4: "list_all (\<lambda>a. a < next_addr st4) new1"
    using rng by (simp add: list_all_iff)
  have inv4: "inv env vars st4"
    using inv_frame [OF inv f4(2) r4 rng4 n4 h4] f4(4) by simp
  have vis_mono: "?vis = ?P" if "mono (clock env)"
  proof -
    have "\<forall>r \<in> set ?P. \<not> isDuplicated pr r"
    proof
      fix r assume "r \<in> set ?P"
      with recs obtain k where "k < ticks st" "ats r = clock env k"
        by (auto simp: list_all_iff record_ok_def)
      with stamp(2) have "\<exists>k < Suc n. ats r = clock env k"
        by (intro exI [of _ k]) simp
      from not_duplicated_mono [OF that this stamp(1)] show "\<not> isDuplicated pr r" .
    qed
    then show ?thesis by (simp add: takeWhile_eq_all_conv)
  qed
  have m4: "matching env vars st4 l = matching env vars st l" for l
    using matching_frame [OF inv f4(2) h4] .
  show ?thesis
  proof (cases "list_ex ?M ?vis")
    case True
    then have "?vis \<noteq> []" by (auto simp: list_ex_iff)
    then have "?P \<noteq> []" by auto
    with True sc have pb: "probe env vars pr i st = Inr st4"
      by (simp add: probe_def bind_def Let_def)
    from True have "filter ?M ?vis \<noteq> []" by (auto simp: list_ex_iff filter_empty_conv)
    with la have nn: "new1 \<noteq> []" by auto
    have mono_part: "list_all2 (\<lambda>a r. combines t (heap st4 a) (heap st4 (tuple r))) new1
            (matching env vars st4 t)" if "mono (clock env)"
    proof -
      have "matching env vars st4 t = filter ?M ?P"
        unfolding m4 by (simp add: matching_def i)
      moreover have "list_all2 (\<lambda>a r. combines t (heap st4 a) (heap st4 (tuple r))) new1
                       (filter ?M ?P)"
        using la unfolding vis_mono [OF that]
      proof (rule list.rel_mono_strong)
        fix a r assume "r \<in> set (filter ?M ?P)" and eq: "heap st4 a = t ++ heap st (tuple r)"
        with Pok have "tuple r < next_addr st" by (simp add: list_all_iff)
        with h4 have "heap st4 (tuple r) = heap st (tuple r)" by simp
        with eq show "combines t (heap st4 a) (heap st4 (tuple r))"
          by (simp add: combines_local)
      qed
      ultimately show ?thesis by simp
    qed
    from pb inv4 r4 nn n4 h4 f4 mono_part m4 show ?thesis
      by (intro exI [of _ st4] exI [of _ new1]) simp
  next
    case False
    then have "filter ?M ?vis = []" by (auto simp: list_ex_iff filter_empty_conv)
    with la have e1: "new1 = []" by simp
    from False sc have pb: "probe env vars pr i st = contact env vars pr i st4"
      by (simp add: probe_def bind_def Let_def)
    have L4: "heap st4 (tuple pr) = t" using h4 apr L by simp
    have b4: "binds vars (heap st4 (tuple pr))" using L4 bt by simp
    have a4: "tuple pr < next_addr st4" using apr n4 by simp
    from contact_result [OF b4 a4 remote, of i] obtain st5 new regs ins where
      c: "contact env vars pr i st4 = Inr st5"
      and g: "grows env vars i t st4 st5 new regs" and rn: "regs \<noteq> []"
      unfolding L4 by blast
    note gf = grows_facts [OF g]
    have inv5: "inv env vars st5" using inv_grows [OF inv4 g i] .
    from gf(3) rn have nn: "new \<noteq> []" by auto
    have res: "results st5 = results st @ new" using gf(1) r4 e1 by simp
    have heap5: "\<forall>a < next_addr st. heap st5 a = heap st a"
      using gf(7) h4 n4 by simp
    have mono_part: "list_all2 (\<lambda>a r. combines t (heap st5 a) (heap st5 (tuple r))) new
            (matching env vars st5 t)
          \<and> (\<forall>l. matching env vars st l \<noteq> [] \<longrightarrow>
                 matching env vars st5 l = matching env vars st l)" if "mono (clock env)"
    proof -
      from False have "filter ?M ?P = []"
        unfolding vis_mono [OF that] by (auto simp: list_ex_iff filter_empty_conv)
      then have none: "matching env vars st4 t = []"
        unfolding m4 by (simp add: matching_def i)
      from matching_grows [OF inv4 g i none] gf(3) show ?thesis
        unfolding m4 by simp
    qed
    from pb c inv5 res nn gf(6,8,9,10) n4 heap5 f4 mono_part show ?thesis
      by (intro exI [of _ st5] exI [of _ new]) simp
  qed
qed

lemma insertAndProbe_step:
  assumes inv: "inv env vars st" and ne: "vars \<noteq> []" and bt: "binds vars t"
    and remote: "\<forall>vs ins. EOF \<in> set (right_execute env vs ins)"
  shows "\<exists>st' new. insertAndProbe env vars (Tuple t) st = Inr st' \<and> inv env vars st'
     \<and> results st' = results st @ new \<and> new \<noteq> []
     \<and> next_addr st \<le> next_addr st' \<and> (\<forall>a < next_addr st. heap st' a = heap st a)
     \<and> qresults st' = qresults st
     \<and> (mono (clock env) \<longrightarrow>
          list_all2 (\<lambda>a r. combines t (heap st' a) (heap st' (tuple r))) new
            (matching env vars st' t)
          \<and> (\<forall>l. matching env vars st l \<noteq> [] \<longrightarrow>
                 matching env vars st' l = matching env vars st l))"
proof -
  define i where "i = partition_index env (key_of vars t)"
  define pr where "pr = \<lparr>tuple = next_addr st, ats = clock env (ticks st), dts = 0\<rparr>"
  define st3 where
    "st3 = st\<lparr>heap := (heap st)(next_addr st := t), next_addr := Suc (next_addr st),
              ticks := Suc (ticks st), left_table := insertRecord i pr (left_table st)\<rparr>"
  have run: "insertAndProbe env vars (Tuple t) st = probe env vars pr i st3"
    using att1_of_binds [OF bt, of "[]"]
    by (simp add: alloc_def read_clock_def Let_def i_def pr_def st3_def)
  have f3: "right_table st3 = right_table st" "results st3 = results st @ []"
    "next_addr st \<le> next_addr st3" "\<forall>a < next_addr st. heap st3 a = heap st a"
    "ticks st \<le> ticks st3" "qresults st3 = qresults st"
    by (simp_all add: st3_def)
  have inv3: "inv env vars st3"
    using inv_frame [OF inv f3(1,2) _ f3(3,4,5)] by simp
  have L3: "heap st3 (tuple pr) = t" by (simp add: st3_def pr_def)
  have a3: "tuple pr < next_addr st3" by (simp add: st3_def pr_def)
  have s3: "ats pr = clock env (ticks st)" "ticks st3 \<le> Suc (ticks st)"
    by (simp_all add: st3_def pr_def)
  have m3: "matching env vars st3 l = matching env vars st l" for l
    using matching_frame [OF inv f3(1,4)] .
  from probe_step [OF inv3 ne L3 bt a3 i_def remote s3]
  obtain st' new where
    p: "probe env vars pr i st3 = Inr st'" "inv env vars st'"
      "results st' = results st3 @ new" "new \<noteq> []"
      "next_addr st3 \<le> next_addr st'" "\<forall>a < next_addr st3. heap st' a = heap st3 a"
      "qresults st' = qresults st3"
    and mp: "mono (clock env) \<longrightarrow>
          list_all2 (\<lambda>a r. combines t (heap st' a) (heap st' (tuple r))) new
            (matching env vars st' t)
          \<and> (\<forall>l. matching env vars st3 l \<noteq> [] \<longrightarrow>
                 matching env vars st' l = matching env vars st3 l)"
    by blast
  have "\<forall>a < next_addr st. heap st' a = heap st a"
    using p(6) f3(3,4) by (simp add: st3_def)
  moreover have "next_addr st \<le> next_addr st'" using p(5) f3(3) by simp
  ultimately show ?thesis
    using run p f3(2,6) mp unfolding m3
    by (intro exI [of _ st'] exI [of _ new]) simp
qed

lemma drain_run: "drain (map Tuple ts @ EOF # rest) left = Inr (left @ map Tuple ts @ [EOF])"
  by (induction ts arbitrary: left) simp_all

subsection \<open>The run\<close>

lemma process_left_Cons:
  "process_left env vars (m # map Tuple ts @ [EOF]) st
     = bind (insertAndProbe env vars m st) (process_left env vars (map Tuple ts @ [EOF]))"
  by (cases ts) simp_all

lemma length_concat_nonempty: "list_all (\<lambda>c. c \<noteq> []) cs \<Longrightarrow> length cs \<le> length (concat cs)"
proof (induction cs)
  case Nil
  then show ?case by simp
next
  case (Cons c cs)
  then have "c \<noteq> []" and "length cs \<le> length (concat cs)" by simp_all
  then show ?case by (cases c) simp_all
qed

lemma process_left_run:
  assumes ne: "vars \<noteq> []" and remote: "\<forall>vs ins. EOF \<in> set (right_execute env vs ins)"
    and "list_all (binds vars) ts" and "inv env vars st"
  shows "\<exists>st' chunks.
       process_left env vars (map Tuple ts @ [EOF]) st = Inr st' \<and> inv env vars st'
     \<and> results st' = results st @ concat chunks \<and> length chunks = length ts
     \<and> list_all (\<lambda>c. c \<noteq> []) chunks
     \<and> next_addr st \<le> next_addr st' \<and> (\<forall>a < next_addr st. heap st' a = heap st a)
     \<and> qresults st' = qresults st
     \<and> (mono (clock env) \<longrightarrow>
          list_all2 (\<lambda>t c. list_all2 (\<lambda>a r. combines t (heap st' a) (heap st' (tuple r))) c
                             (matching env vars st' t)) ts chunks
          \<and> (\<forall>l. matching env vars st l \<noteq> [] \<longrightarrow>
                 matching env vars st' l = matching env vars st l))"
  using assms(3,4)
proof (induction ts arbitrary: st)
  case Nil
  show ?case by (intro exI [of _ st] exI [of _ "[]"]) (simp add: Nil.prems)
next
  case (Cons t ts)
  from Cons.prems(1) have bt: "binds vars t" and bts: "list_all (binds vars) ts" by simp_all
  from insertAndProbe_step [OF Cons.prems(2) ne bt remote]
  obtain st1 new where
    s: "insertAndProbe env vars (Tuple t) st = Inr st1" "inv env vars st1"
      "results st1 = results st @ new" "new \<noteq> []"
      "next_addr st \<le> next_addr st1" "\<forall>a < next_addr st. heap st1 a = heap st a"
      "qresults st1 = qresults st"
    and sm: "mono (clock env) \<longrightarrow>
          list_all2 (\<lambda>a r. combines t (heap st1 a) (heap st1 (tuple r))) new
            (matching env vars st1 t)
          \<and> (\<forall>l. matching env vars st l \<noteq> [] \<longrightarrow>
                 matching env vars st1 l = matching env vars st l)"
    by blast
  from Cons.IH [OF bts s(2)]
  obtain st' chunks where
    r: "process_left env vars (map Tuple ts @ [EOF]) st1 = Inr st'" "inv env vars st'"
      "results st' = results st1 @ concat chunks" "length chunks = length ts"
      "list_all (\<lambda>c. c \<noteq> []) chunks"
      "next_addr st1 \<le> next_addr st'" "\<forall>a < next_addr st1. heap st' a = heap st1 a"
      "qresults st' = qresults st1"
    and rm: "mono (clock env) \<longrightarrow>
          list_all2 (\<lambda>t c. list_all2 (\<lambda>a r. combines t (heap st' a) (heap st' (tuple r))) c
                             (matching env vars st' t)) ts chunks
          \<and> (\<forall>l. matching env vars st1 l \<noteq> [] \<longrightarrow>
                 matching env vars st' l = matching env vars st1 l)"
    by blast
  have run: "process_left env vars (map Tuple (t # ts) @ [EOF]) st = Inr st'"
    using s(1) r(1) by (simp add: process_left_Cons bind_def)
  have mono_part:
    "list_all2 (\<lambda>t c. list_all2 (\<lambda>a r. combines t (heap st' a) (heap st' (tuple r))) c
                             (matching env vars st' t)) (t # ts) (new # chunks)
     \<and> (\<forall>l. matching env vars st l \<noteq> [] \<longrightarrow>
            matching env vars st' l = matching env vars st l)" if m: "mono (clock env)"
  proof -
    from sm m have h1: "list_all2 (\<lambda>a r. combines t (heap st1 a) (heap st1 (tuple r))) new
            (matching env vars st1 t)"
      and fr1: "\<And>l. matching env vars st l \<noteq> [] \<Longrightarrow>
                 matching env vars st1 l = matching env vars st l" by simp_all
    from rm m have h2: "list_all2 (\<lambda>t c. list_all2 (\<lambda>a r. combines t (heap st' a)
             (heap st' (tuple r))) c (matching env vars st' t)) ts chunks"
      and fr2: "\<And>l. matching env vars st1 l \<noteq> [] \<Longrightarrow>
                 matching env vars st' l = matching env vars st1 l" by simp_all
    from h1 s(4) have nonempty: "matching env vars st1 t \<noteq> []" by auto
    have same: "matching env vars st' t = matching env vars st1 t"
      using fr2 [OF nonempty] .
    have addr_new: "a < next_addr st1" if "a \<in> set new" for a
      using inv_results [OF s(2)] s(3) that by (simp add: list_all_iff)
    have addr_rec: "tuple r < next_addr st1" if "r \<in> set (matching env vars st1 t)" for r
    proof -
      from that have "r \<in> set (right_table st1 ! partition_index env (key_of vars t))"
        by (simp add: matching_def)
      with inv_records [OF s(2) partition_index_less [of env "key_of vars t"]]
      show ?thesis by (simp add: list_all_iff record_ok_def)
    qed
    have "list_all2 (\<lambda>a r. combines t (heap st' a) (heap st' (tuple r))) new
            (matching env vars st' t)"
      unfolding same using h1
    proof (rule list.rel_mono_strong)
      fix a r assume "a \<in> set new" "r \<in> set (matching env vars st1 t)"
        and c: "combines t (heap st1 a) (heap st1 (tuple r))"
      with addr_new addr_rec r(7) have "heap st' a = heap st1 a"
        "heap st' (tuple r) = heap st1 (tuple r)" by simp_all
      with c show "combines t (heap st' a) (heap st' (tuple r))" by simp
    qed
    moreover have "matching env vars st' l = matching env vars st l"
      if "matching env vars st l \<noteq> []" for l
      using fr1 [OF that] fr2 [of l] that by simp
    ultimately show ?thesis using h2 by simp
  qed
  have "\<forall>a < next_addr st. heap st' a = heap st a" using s(5,6) r(7) by simp
  moreover have "next_addr st \<le> next_addr st'" using s(5) r(6) by simp
  moreover have "results st' = results st @ concat (new # chunks)" using s(3) r(3) by simp
  ultimately show ?case
    using run r(2,4,5,8) s(4,7) mono_part
    by (intro exI [of _ st'] exI [of _ "new # chunks"]) simp
qed

lemma inv_init: "inv env vars NLO_init"
  by (simp add: inv_def NLO_init_def new_table_def)

lemma matching_flush: "matching env vars (flush st) l = matching env vars st l"
  by (simp add: matching_def flush_def)

lemma matching_complete:
  assumes "inv env vars st" and "j < table_size"
    and "j \<noteq> partition_index env (key_of vars l)"
  shows "filter (\<lambda>r. matches vars l (heap st (tuple r))) (right_table st ! j) = []"
proof (rule ccontr)
  assume "filter (\<lambda>r. matches vars l (heap st (tuple r))) (right_table st ! j) \<noteq> []"
  then obtain r where r: "r \<in> set (right_table st ! j)" "matches vars l (heap st (tuple r))"
    by (auto simp: filter_empty_conv)
  from inv_records [OF assms(1,2)] r(1)
  have "partition_index env (key_of vars (heap st (tuple r))) = j"
    by (simp add: list_all_iff record_ok_def)
  with matches_key [OF r(2)] assms(3) show False by simp
qed

lemma record_ok_flush: "record_ok env vars (flush st) i = record_ok env vars st i"
  by (rule ext) (simp add: record_ok_def flush_def)

lemma inv_flush: "inv env vars st \<Longrightarrow> inv env vars (flush st)"
  unfolding inv_def record_ok_flush by (simp add: flush_def)

lemma heap_flush: "heap (flush st) = heap st"
  by (simp add: flush_def)

text \<open>
  The whole run, for an operator with at least one join variable, left mappings that bind
  the join variables and a source whose every answer ends with the sentinel: the run
  returns, and its output is a sequence of non-empty chunks, one per left mapping in
  order, followed by the sentinel. When the readings of the clock never decrease, the
  chunk of a left mapping corresponds one to one, in order, with the records of the
  final right table that match it, each output combining the mapping and its record.
\<close>

lemma NLO_execute_run:
  assumes ne: "vars \<noteq> []" and bs: "list_all (binds vars) ts"
    and remote: "\<forall>vs ins. EOF \<in> set (right_execute env vs ins)"
  shows "\<exists>st chunks.
       NLO_execute env vars (map Tuple ts @ EOF # rest) NLO_init = Inr st
     \<and> qresults st = map Tuple (concat chunks) @ [EOF]
     \<and> length chunks = length ts \<and> list_all (\<lambda>c. c \<noteq> []) chunks
     \<and> inv env vars st
     \<and> (mono (clock env) \<longrightarrow>
          list_all2 (\<lambda>t c. list_all2 (\<lambda>out r. combines t out (heap st (tuple r))) c
                             (matching env vars st t)) ts chunks)"
proof -
  from process_left_run [OF ne remote bs inv_init]
  obtain st' chunks where
    r: "process_left env vars (map Tuple ts @ [EOF]) NLO_init = Inr st'" "inv env vars st'"
      "results st' = results NLO_init @ concat chunks" "length chunks = length ts"
      "list_all (\<lambda>c. c \<noteq> []) chunks" "qresults st' = qresults NLO_init"
    and rm: "mono (clock env) \<longrightarrow>
          list_all2 (\<lambda>t c. list_all2 (\<lambda>a r. combines t (heap st' a) (heap st' (tuple r))) c
                             (matching env vars st' t)) ts chunks"
    by blast
  let ?st = "flush st'"
  let ?chunks = "map (map (heap st')) chunks"
  have run: "NLO_execute env vars (map Tuple ts @ EOF # rest) NLO_init = Inr ?st"
    using r(1) drain_run [of ts rest "[]"] by (simp add: NLO_execute_def bind_def)
  have out: "qresults ?st = map Tuple (concat ?chunks) @ [EOF]"
    using r(3,6) by (simp add: flush_def NLO_init_def map_concat comp_def)
  have len: "length ?chunks = length ts" using r(4) by simp
  have nonempty: "list_all (\<lambda>c. c \<noteq> []) ?chunks"
    using r(5) by (simp add: list_all_iff)
  have inv: "inv env vars ?st"
    using r(2) by (rule inv_flush)
  have pairs: "list_all2 (\<lambda>t c. list_all2 (\<lambda>out r. combines t out (heap ?st (tuple r))) c
                             (matching env vars ?st t)) ts ?chunks" if "mono (clock env)"
  proof -
    from rm that have "list_all2 (\<lambda>t c. list_all2 (\<lambda>a r. combines t (heap st' a)
            (heap st' (tuple r))) c (matching env vars st' t)) ts chunks" by simp
    then show ?thesis
      by (simp add: list_all2_map1 list_all2_map2 matching_flush heap_flush)
  qed
  from run out len nonempty inv pairs show ?thesis by blast
qed

text \<open>
  Left preservation for an operator with at least one join variable: the output has at
  least as many mappings as the left input.
\<close>

theorem NLO_optional_preservation:
  assumes "vars \<noteq> []" and "list_all (binds vars) ts"
    and "\<forall>vs ins. EOF \<in> set (right_execute env vs ins)"
  shows "\<exists>st out. NLO_execute env vars (map Tuple ts @ EOF # rest) NLO_init = Inr st
           \<and> qresults st = map Tuple out @ [EOF] \<and> length ts \<le> length out"
proof -
  from NLO_execute_run [OF assms, of rest] obtain st chunks where
    "NLO_execute env vars (map Tuple ts @ EOF # rest) NLO_init = Inr st"
    "qresults st = map Tuple (concat chunks) @ [EOF]"
    "length chunks = length ts" "list_all (\<lambda>c. c \<noteq> []) chunks"
    by blast
  with length_concat_nonempty [of chunks] show ?thesis
    by (intro exI [of _ st] exI [of _ "concat chunks"]) simp
qed

text \<open>
  Exactly one output per matching pair for an operator with at least one join variable
  and a clock whose readings never decrease: every left mapping has its own chunk of the
  output, whose elements pair off with the records of
  the right table that match the mapping on all join variables; all such records lie in
  the partition of the mapping's key, so none is left without an output and none has two.
\<close>

theorem NLO_matching_pairs_joined_once:
  assumes "mono (clock env)" and "vars \<noteq> []" and "list_all (binds vars) ts"
    and "\<forall>vs ins. EOF \<in> set (right_execute env vs ins)"
  shows "\<exists>st chunks.
       NLO_execute env vars (map Tuple ts @ EOF # rest) NLO_init = Inr st
     \<and> qresults st = map Tuple (concat chunks) @ [EOF]
     \<and> list_all2 (\<lambda>t c. list_all2 (\<lambda>out r. combines t out (heap st (tuple r))) c
                         (matching env vars st t)) ts chunks
     \<and> length (right_table st) = table_size
     \<and> (\<forall>l j. j < table_size \<longrightarrow> j \<noteq> partition_index env (key_of vars l) \<longrightarrow>
           filter (\<lambda>r. matches vars l (heap st (tuple r))) (right_table st ! j) = [])"
proof -
  from NLO_execute_run [OF assms(2,3,4), of rest] assms(1) obtain st chunks where
    r: "NLO_execute env vars (map Tuple ts @ EOF # rest) NLO_init = Inr st"
    "qresults st = map Tuple (concat chunks) @ [EOF]"
    "inv env vars st"
    "list_all2 (\<lambda>t c. list_all2 (\<lambda>out r. combines t out (heap st (tuple r))) c
                         (matching env vars st t)) ts chunks"
    by blast
  from r(3) have "length (right_table st) = table_size" by (rule inv_length)
  moreover have "\<forall>l j. j < table_size \<longrightarrow> j \<noteq> partition_index env (key_of vars l) \<longrightarrow>
           filter (\<lambda>r. matches vars l (heap st (tuple r))) (right_table st ! j) = []"
    using matching_complete [OF r(3)] by blast
  ultimately show ?thesis using r(1,2,4) by blast
qed

text \<open>The cache example satisfies the hypotheses of the two theorems.\<close>

lemma cache_env_terminates: "\<forall>vs ins. EOF \<in> set (right_execute (cache_env h) vs ins)"
  by (simp add: cache_env_def)

lemma cache_env_mono: "mono (clock (cache_env h))"
  by (simp add: cache_env_def mono_def)

theorem NLO_matching_pairs_joined_once_instance:
  "mono (clock (cache_env (\<lambda>_. 0))) \<and> [''x''] \<noteq> []
   \<and> list_all (binds [''x''])
        [[''x'' \<mapsto> ''a'', ''y'' \<mapsto> ''1''], [''x'' \<mapsto> ''a'', ''y'' \<mapsto> ''2'']]
   \<and> (\<exists>st chunks.
        NLO_execute (cache_env (\<lambda>_. 0)) [''x'']
          (map Tuple [[''x'' \<mapsto> ''a'', ''y'' \<mapsto> ''1''], [''x'' \<mapsto> ''a'', ''y'' \<mapsto> ''2'']] @ EOF # [])
          NLO_init = Inr st
        \<and> qresults st = map Tuple (concat chunks) @ [EOF]
        \<and> list_all2 (\<lambda>t c. list_all2 (\<lambda>out r. combines t out (heap st (tuple r))) c
                            (matching (cache_env (\<lambda>_. 0)) [''x''] st t))
            [[''x'' \<mapsto> ''a'', ''y'' \<mapsto> ''1''], [''x'' \<mapsto> ''a'', ''y'' \<mapsto> ''2'']] chunks)"
proof -
  have b: "list_all (binds [''x''])
        [[''x'' \<mapsto> ''a'', ''y'' \<mapsto> ''1''], [''x'' \<mapsto> ''a'', ''y'' \<mapsto> ''2'']]"
    by (simp add: binds_def)
  have n: "[''x''] \<noteq> []" by simp
  from NLO_matching_pairs_joined_once [OF cache_env_mono n b cache_env_terminates, of "\<lambda>_. 0" "[]"]
    cache_env_mono [of "\<lambda>_. 0"] b
  show ?thesis by blast
qed

end
